theory Spec2Isabelle
  imports Main "HOL-Library.Word" "HOL-Library.AList"
begin

section \<open>Data model\<close>

text \<open>
  The module is Python 2. A byte string (\<open>str\<close>) is a list of 8-bit words; a text
  string (\<open>unicode\<close>) is the list of its code points. Exceptions are values of the
  type \<open>error\<close>; a function that can raise returns \<open>error + 'a\<close>, \<open>Inl\<close> being the
  exception that leaves it.
\<close>

type_synonym byte = "8 word"
type_synonym bytes = "byte list"
type_synonym unicode = "nat list"

datatype error =
    TypeError | InvalidBSON | InvalidDocument | AssertionError | IndexError
  | KeyError | StructError | UnicodeDecodeError

text \<open>
  The native values the module meets. \<open>Float\<close> carries the IEEE-754 bit pattern of the
  double, \<open>Dict\<close> the items of the dictionary in iteration order (keys are text),
  \<open>Integer\<close> a Python \<open>int\<close>, \<open>Str\<close> a byte string and \<open>NoneVal\<close> the value
  \<open>None\<close>; the last two are not convertible to BSON. A key that is an ASCII byte
  string compares and hashes equal to the text of the same characters and is not
  distinguished from it; the iteration order of a dictionary is the order of the list.
\<close>

datatype "value" =
    Float "64 word"
  | Unicode unicode
  | Dict "(unicode \<times> value) list"
  | List "value list"
  | Bool bool
  | Integer int
  | Str bytes
  | NoneVal

subsection \<open>Python sequence operations\<close>

text \<open>
  Slices and subscripts with a computed index follow Python: a negative index counts
  from the end, a slice bound is clamped to the sequence, a subscript out of range
  raises \<open>IndexError\<close>.
\<close>

definition clamp_index :: "int \<Rightarrow> nat \<Rightarrow> nat" where
  "clamp_index i n = (if i < 0 then nat (i + int n) else min (nat i) n)"

definition slice :: "'a list \<Rightarrow> int \<Rightarrow> int \<Rightarrow> 'a list" where
  "slice xs i j =
     (let lo = clamp_index i (length xs); hi = clamp_index j (length xs)
      in take (hi - lo) (drop lo xs))"

definition slice_from :: "'a list \<Rightarrow> int \<Rightarrow> 'a list" where
  "slice_from xs i = drop (clamp_index i (length xs)) xs"

definition slice_to :: "'a list \<Rightarrow> int \<Rightarrow> 'a list" where
  "slice_to xs j = take (clamp_index j (length xs)) xs"

definition item :: "'a list \<Rightarrow> int \<Rightarrow> error + 'a" where
  "item xs i =
     (let n = int (length xs); j = (if i < 0 then i + n else i)
      in if 0 \<le> j \<and> j < n then Inr (xs ! nat j) else Inl IndexError)"

text \<open>\<open>data.index("\x00")\<close>: the position of the first zero byte.\<close>

fun index_of :: "'a \<Rightarrow> 'a list \<Rightarrow> nat option" where
  "index_of x [] = None"
| "index_of x (y # ys) = (if y = x then Some 0 else map_option Suc (index_of x ys))"

subsection \<open>The struct module: little-endian formats\<close>

fun le_bytes :: "nat \<Rightarrow> nat \<Rightarrow> bytes" where
  "le_bytes 0 n = []"
| "le_bytes (Suc k) n = of_nat (n mod 256) # le_bytes k (n div 256)"

fun le_nat :: "bytes \<Rightarrow> nat" where
  "le_nat [] = 0"
| "le_nat (b # bs) = unat b + 256 * le_nat bs"

text \<open>\<open>struct.unpack("<i", s)[0]\<close> and \<open>struct.pack("<i", i)\<close>: four bytes, two's
  complement; \<open>struct.error\<close> on a string of another length or an integer out of range.\<close>

definition unpack_int :: "bytes \<Rightarrow> error + int" where
  "unpack_int s =
     (if length s = 4
      then (let u = int (le_nat s) in Inr (if u < 2147483648 then u else u - 4294967296))
      else Inl StructError)"

definition pack_int :: "int \<Rightarrow> error + bytes" where
  "pack_int i =
     (if - 2147483648 \<le> i \<and> i < 2147483648
      then Inr (le_bytes 4 (nat (i mod 4294967296)))
      else Inl StructError)"

text \<open>\<open>struct.unpack("<d", s)[0]\<close> and \<open>struct.pack("<d", x)\<close>: the eight bytes of the
  double's bit pattern.\<close>

definition unpack_double :: "bytes \<Rightarrow> error + 64 word" where
  "unpack_double s = (if length s = 8 then Inr (of_nat (le_nat s)) else Inl StructError)"

definition pack_double :: "64 word \<Rightarrow> bytes" where
  "pack_double x = le_bytes 8 (unat x)"

subsection \<open>The utf-8 codec\<close>

text \<open>
  \<open>unicode(s, "utf-8")\<close> of Python 2: one to four bytes per code point, shortest form
  only, at most U+10FFFF, surrogates accepted; any other byte sequence raises
  \<open>UnicodeDecodeError\<close> (here \<open>None\<close>).
\<close>

definition cont :: "byte \<Rightarrow> bool" where
  "cont b = (128 \<le> unat b \<and> unat b < 192)"

fun utf8_decode :: "bytes \<Rightarrow> unicode option" where
  "utf8_decode [] = Some []"
| "utf8_decode (b # bs) =
     (let n = unat b in
      if n < 128 then map_option ((#) n) (utf8_decode bs)
      else if n < 192 then None
      else if n < 224 then
        (case bs of
           b1 # r \<Rightarrow>
             (let ch = (n - 192) * 64 + (unat b1 - 128)
              in if cont b1 \<and> 128 \<le> ch then map_option ((#) ch) (utf8_decode r) else None)
         | _ \<Rightarrow> None)
      else if n < 240 then
        (case bs of
           b1 # b2 # r \<Rightarrow>
             (let ch = (n - 224) * 4096 + (unat b1 - 128) * 64 + (unat b2 - 128)
              in if cont b1 \<and> cont b2 \<and> 2048 \<le> ch
                 then map_option ((#) ch) (utf8_decode r) else None)
         | _ \<Rightarrow> None)
      else if n < 248 then
        (case bs of
           b1 # b2 # b3 # r \<Rightarrow>
             (let ch = (n - 240) * 262144 + (unat b1 - 128) * 4096 + (unat b2 - 128) * 64
                       + (unat b3 - 128)
              in if cont b1 \<and> cont b2 \<and> cont b3 \<and> 65536 \<le> ch \<and> ch \<le> 1114111
                 then map_option ((#) ch) (utf8_decode r) else None)
         | _ \<Rightarrow> None)
      else None)"

text \<open>
  \<open>u.encode("utf-8")\<close> of Python 2. A high surrogate followed by a low surrogate is
  encoded as the one code point the pair stands for.
\<close>

definition encode3 :: "nat \<Rightarrow> bytes" where
  "encode3 c = [of_nat (224 + c div 4096), of_nat (128 + c div 64 mod 64), of_nat (128 + c mod 64)]"

definition encode4 :: "nat \<Rightarrow> bytes" where
  "encode4 c = [of_nat (240 + c div 262144), of_nat (128 + c div 4096 mod 64),
                of_nat (128 + c div 64 mod 64), of_nat (128 + c mod 64)]"

fun utf8_encode :: "unicode \<Rightarrow> bytes" where
  "utf8_encode [] = []"
| "utf8_encode (c # cs) =
     (if c < 128 then of_nat c # utf8_encode cs
      else if c < 2048 then of_nat (192 + c div 64) # of_nat (128 + c mod 64) # utf8_encode cs
      else if c < 65536 then
        (case cs of
           c2 # cs' \<Rightarrow>
             if 55296 \<le> c \<and> c \<le> 56319 \<and> 56320 \<le> c2 \<and> c2 \<le> 57343
             then encode4 ((c - 55296) * 1024 + (c2 - 56320) + 65536) @ utf8_encode cs'
             else encode3 c @ utf8_encode cs
         | [] \<Rightarrow> encode3 c)
      else encode4 c @ utf8_encode cs)"

text \<open>\<open>str(i)\<close> for a non-negative integer: its decimal digits.\<close>

fun str :: "nat \<Rightarrow> unicode" where
  "str n = (if n < 10 then [48 + n] else str (n div 10) @ [48 + n mod 10])"

declare str.simps [simp del]

subsection \<open>The two compiled patterns\<close>

text \<open>
  \<open>_valid_object_name = re.compile("^.*$")\<close> and \<open>_valid_array_name = re.compile("^\d+$")\<close>.
  \<open>.\<close> matches every character but the newline, \<open>\d\<close> the ten ASCII digits, and \<open>$\<close>
  matches at the end of the string and before a newline that ends it.
\<close>

datatype name_pattern = Valid_object_name | Valid_array_name

definition digit :: "nat \<Rightarrow> bool" where
  "digit c = (48 \<le> c \<and> c \<le> 57)"

definition at_end :: "unicode \<Rightarrow> bool" where
  "at_end r = (r = [] \<or> r = [10])"

fun re_match :: "name_pattern \<Rightarrow> unicode \<Rightarrow> bool" where
  "re_match Valid_object_name s = at_end (dropWhile (\<lambda>c. c \<noteq> 10) s)"
| "re_match Valid_array_name s = (takeWhile digit s \<noteq> [] \<and> at_end (dropWhile digit s))"

section \<open>Validation\<close>

definition get_int :: "bytes \<Rightarrow> error + int \<times> bytes" where
  "get_int data =
     (case unpack_int (take 4 data) of
        Inl e \<Rightarrow> Inl InvalidBSON
      | Inr i \<Rightarrow> Inr (i, drop 4 data))"

definition get_c_string :: "bytes \<Rightarrow> error + unicode \<times> bytes" where
  "get_c_string data =
     (case index_of 0 data of
        None \<Rightarrow> Inl InvalidBSON
      | Some end \<Rightarrow>
          (case utf8_decode (take end data) of
             None \<Rightarrow> Inl UnicodeDecodeError
           | Some s \<Rightarrow> Inr (s, drop (end + 1) data)))"

definition make_c_string :: "unicode \<Rightarrow> bytes" where
  "make_c_string string = utf8_encode string @ [0]"

definition validate_number :: "bytes \<Rightarrow> error + bytes" where
  "validate_number data =
     (if \<not> 8 \<le> length data then Inl AssertionError else Inr (drop 8 data))"

definition validate_string :: "bytes \<Rightarrow> error + bytes" where
  "validate_string data0 =
     (case get_int data0 of
        Inl e \<Rightarrow> Inl e
      | Inr (len, data) \<Rightarrow>
          if \<not> len \<le> int (length data) then Inl AssertionError
          else (case item data (len - 1) of
                  Inl e \<Rightarrow> Inl e
                | Inr b \<Rightarrow> if b \<noteq> 0 then Inl AssertionError else Inr (slice_from data len)))"

definition validate_binary :: "bytes \<Rightarrow> error + bytes" where
  "validate_binary data0 =
     (case get_int data0 of
        Inl e \<Rightarrow> Inl e
      | Inr (len, data) \<Rightarrow>
          if \<not> len \<le> int (length data) then Inl AssertionError
          else Inr (slice_from data len))"

definition validate_undefined :: "bytes \<Rightarrow> error + bytes" where
  "validate_undefined data = Inr data"

definition OID_SIZE :: nat where
  "OID_SIZE = 12"

definition validate_oid :: "bytes \<Rightarrow> error + bytes" where
  "validate_oid data =
     (if \<not> OID_SIZE \<le> length data then Inl AssertionError else Inr (drop OID_SIZE data))"

definition validate_boolean :: "bytes \<Rightarrow> error + bytes" where
  "validate_boolean data =
     (if \<not> 1 \<le> length data then Inl AssertionError else Inr (drop 1 data))"

definition DATE_SIZE :: nat where
  "DATE_SIZE = 8"

definition validate_date :: "bytes \<Rightarrow> error + bytes" where
  "validate_date data =
     (if \<not> DATE_SIZE \<le> length data then Inl AssertionError else Inr (drop DATE_SIZE data))"

definition validate_null :: "bytes \<Rightarrow> error + bytes" where
  "validate_null = validate_undefined"

definition validate_regex :: "bytes \<Rightarrow> error + bytes" where
  "validate_regex data0 =
     (case get_c_string data0 of
        Inl e \<Rightarrow> Inl e
      | Inr (regex, data1) \<Rightarrow>
          (case get_c_string data1 of
             Inl e \<Rightarrow> Inl e
           | Inr (options, data) \<Rightarrow> Inr data))"

definition validate_ref :: "bytes \<Rightarrow> error + bytes" where
  "validate_ref data0 =
     (case get_c_string data0 of
        Inl e \<Rightarrow> Inl e
      | Inr (namespace, data) \<Rightarrow> validate_oid data)"

definition validate_code :: "bytes \<Rightarrow> error + bytes" where
  "validate_code = validate_string"

definition validate_symbol :: "bytes \<Rightarrow> error + bytes" where
  "validate_symbol = validate_string"

definition validate_number_int :: "bytes \<Rightarrow> error + bytes" where
  "validate_number_int data =
     (if \<not> 4 \<le> length data then Inl AssertionError else Inr (drop 4 data))"

text \<open>
  The validators that recurse. \<open>_element_validator\<close> is the chain of comparisons in
  \<open>validate_element_data\<close>: a tag that is no key of the table raises \<open>KeyError\<close>,
  which the function turns into \<open>InvalidBSON\<close>, as it does with a \<open>KeyError\<close> that
  leaves the validator it calls.
\<close>

function (sequential)
      validate_document :: "bytes \<Rightarrow> name_pattern \<Rightarrow> error + bytes"
  and validate_elements :: "bytes \<Rightarrow> name_pattern \<Rightarrow> error + unit"
  and validate_element :: "bytes \<Rightarrow> name_pattern \<Rightarrow> error + bytes"
  and validate_element_data :: "byte \<Rightarrow> bytes \<Rightarrow> error + bytes"
  and validate_object :: "bytes \<Rightarrow> error + bytes"
  and validate_array :: "bytes \<Rightarrow> error + bytes"
where
  "validate_document data valid_name =
     (case unpack_int (take 4 data) of
        Inl e \<Rightarrow> Inl InvalidBSON
      | Inr obj_size \<Rightarrow>
          if \<not> obj_size \<le> int (length data) then Inl AssertionError
          else let object = slice data 4 obj_size in
            if length object = 0 then Inl AssertionError
            else (case item object (- 1) of
                    Inl e \<Rightarrow> Inl e
                  | Inr eoo \<Rightarrow>
                      if eoo \<noteq> 0 then Inl AssertionError
                      else (case validate_elements (slice_to object (- 1)) valid_name of
                              Inl e \<Rightarrow> Inl e
                            | Inr u \<Rightarrow> Inr (slice_from data obj_size))))"
| "validate_elements data valid_name =
     (if data = [] then Inr ()
      else (case validate_element data valid_name of
              Inl e \<Rightarrow> Inl e
            | Inr data' \<Rightarrow> validate_elements data' valid_name))"
| "validate_element data0 valid_name =
     (case item data0 0 of
        Inl e \<Rightarrow> Inl e
      | Inr element_type \<Rightarrow>
          (case get_c_string (drop 1 data0) of
             Inl e \<Rightarrow> Inl e
           | Inr (element_name, data) \<Rightarrow>
               if \<not> re_match valid_name element_name then Inl AssertionError
               else validate_element_data element_type data))"
| "validate_element_data type data =
     (case (if type = 0x01 then validate_number data
            else if type = 0x02 then validate_string data
            else if type = 0x03 then validate_object data
            else if type = 0x04 then validate_array data
            else if type = 0x05 then validate_binary data
            else if type = 0x06 then validate_undefined data
            else if type = 0x07 then validate_oid data
            else if type = 0x08 then validate_boolean data
            else if type = 0x09 then validate_date data
            else if type = 0x0A then validate_null data
            else if type = 0x0B then validate_regex data
            else if type = 0x0C then validate_ref data
            else if type = 0x0D then validate_code data
            else if type = 0x0E then validate_symbol data
            else if type = 0x10 then validate_number_int data
            else Inl KeyError) of
        Inl KeyError \<Rightarrow> Inl InvalidBSON
      | r \<Rightarrow> r)"
| "validate_object data = validate_document data Valid_object_name"
| "validate_array data = validate_document data Valid_array_name"
  by pat_completeness auto

lemma index_of_less: "index_of x ys = Some i \<Longrightarrow> i < length ys"
  by (induction ys arbitrary: i) (auto split: if_splits)

lemma get_c_string_shorter:
  "get_c_string data = Inr (s, rest) \<Longrightarrow> length rest < length data"
  by (auto simp: get_c_string_def split: option.splits dest: index_of_less)

lemma length_slice_from: "length (slice_from xs i) \<le> length xs"
  by (simp add: slice_from_def)

lemma length_slice_to: "length (slice_to xs i) \<le> length xs"
  by (simp add: slice_to_def)

lemma length_slice_4: "length (slice xs 4 j) \<le> length xs - 4"
  by (auto simp: slice_def clamp_index_def Let_def)

lemma unpack_int_length: "unpack_int s = Inr i \<Longrightarrow> length s = 4"
  by (simp add: unpack_int_def split: if_splits)

lemma get_int_shorter: "get_int data = Inr (i, rest) \<Longrightarrow> length rest \<le> length data"
  by (auto simp: get_int_def split: sum.splits)

lemma validate_string_shorter: "validate_string data = Inr r \<Longrightarrow> length r \<le> length data"
  by (auto simp: validate_string_def split: sum.splits if_splits dest!: get_int_shorter
      intro: order_trans [OF length_slice_from])

lemma validate_binary_shorter: "validate_binary data = Inr r \<Longrightarrow> length r \<le> length data"
  by (auto simp: validate_binary_def split: sum.splits if_splits dest!: get_int_shorter
      intro: order_trans [OF length_slice_from])

lemma validate_oid_shorter: "validate_oid data = Inr r \<Longrightarrow> length r \<le> length data"
  by (auto simp: validate_oid_def split: if_splits)

lemma validate_regex_shorter: "validate_regex data = Inr r \<Longrightarrow> length r \<le> length data"
  by (auto simp: validate_regex_def split: sum.splits dest!: get_c_string_shorter)

lemma validate_ref_shorter: "validate_ref data = Inr r \<Longrightarrow> length r \<le> length data"
  by (auto simp: validate_ref_def split: sum.splits dest!: get_c_string_shorter validate_oid_shorter)

lemma validate_simple_shorter:
  "validate_number data = Inr r \<Longrightarrow> length r \<le> length data"
  "validate_undefined data = Inr r \<Longrightarrow> length r \<le> length data"
  "validate_boolean data = Inr r \<Longrightarrow> length r \<le> length data"
  "validate_date data = Inr r \<Longrightarrow> length r \<le> length data"
  "validate_null data = Inr r \<Longrightarrow> length r \<le> length data"
  "validate_code data = Inr r \<Longrightarrow> length r \<le> length data"
  "validate_symbol data = Inr r \<Longrightarrow> length r \<le> length data"
  "validate_number_int data = Inr r \<Longrightarrow> length r \<le> length data"
  by (auto simp: validate_number_def validate_undefined_def validate_boolean_def
      validate_date_def validate_null_def validate_code_def validate_symbol_def
      validate_number_int_def validate_string_shorter split: if_splits)

lemmas shorter = validate_simple_shorter validate_string_shorter validate_binary_shorter
  validate_oid_shorter validate_regex_shorter validate_ref_shorter

lemma validate_shorter_dom:
  "validate_document_validate_elements_validate_element_validate_element_data_validate_object_validate_array_dom (Inl (Inl (data, p)))
     \<Longrightarrow> \<forall>r. validate_document data p = Inr r \<longrightarrow> length r \<le> length data"
  "validate_document_validate_elements_validate_element_validate_element_data_validate_object_validate_array_dom (Inl (Inr (Inl (data, p))))
     \<Longrightarrow> True"
  "validate_document_validate_elements_validate_element_validate_element_data_validate_object_validate_array_dom (Inl (Inr (Inr (data, p))))
     \<Longrightarrow> \<forall>r. validate_element data p = Inr r \<longrightarrow> length r < length data"
  "validate_document_validate_elements_validate_element_validate_element_data_validate_object_validate_array_dom (Inr (Inl (t, data)))
     \<Longrightarrow> \<forall>r. validate_element_data t data = Inr r \<longrightarrow> length r \<le> length data"
  "validate_document_validate_elements_validate_element_validate_element_data_validate_object_validate_array_dom (Inr (Inr (Inl data)))
     \<Longrightarrow> \<forall>r. validate_object data = Inr r \<longrightarrow> length r \<le> length data"
  "validate_document_validate_elements_validate_element_validate_element_data_validate_object_validate_array_dom (Inr (Inr (Inr data)))
     \<Longrightarrow> \<forall>r. validate_array data = Inr r \<longrightarrow> length r \<le> length data"
proof (induct rule: validate_document_validate_elements_validate_element_validate_element_data_validate_object_validate_array.pinduct)
  case (1 data valid_name)
  then show ?case
    by (auto simp: validate_document.psimps Let_def length_slice_from split: sum.splits if_splits)
next
  case (2 data valid_name)
  then show ?case by simp
next
  case (3 data0 valid_name)
  show ?case
  proof (intro allI impI)
    fix r assume r: "validate_element data0 valid_name = Inr r"
    from r 3(1) obtain t s d where t: "item data0 0 = Inr t"
      and g: "get_c_string (drop 1 data0) = Inr (s, d)"
      and m: "re_match valid_name s" and v: "validate_element_data t d = Inr r"
      by (auto simp: validate_element.psimps split: sum.splits if_splits)
    from 3(2) [OF t g refl] m v have "length r \<le> length d" by simp
    moreover from g have "length d < length (drop 1 data0)" by (rule get_c_string_shorter)
    ultimately show "length r < length data0" by simp
  qed
next
  case (4 type data)
  show ?case
  proof (intro allI impI)
    fix r assume r: "validate_element_data type data = Inr r"
    show "length r \<le> length data"
    proof (cases "type = 3 \<or> type = 4")
      case True
      with r 4 show ?thesis
        by (auto simp: validate_element_data.psimps split: sum.splits error.splits if_splits)
    next
      case False
      with r 4(1) show ?thesis
        by (auto simp: validate_element_data.psimps shorter split: sum.splits error.splits if_splits)
    qed
  qed
next
  case (5 data)
  then show ?case by (simp add: validate_object.psimps)
next
  case (6 data)
  then show ?case by (simp add: validate_array.psimps)
qed


termination validate_document
proof (relation "measure (\<lambda>x. case x of
          Inl (Inl (data, p)) \<Rightarrow> 6 * length data
        | Inl (Inr (Inl (data, p))) \<Rightarrow> 6 * length data + 5
        | Inl (Inr (Inr (data, p))) \<Rightarrow> 6 * length data + 4
        | Inr (Inl (t, data)) \<Rightarrow> 6 * length data + 2
        | Inr (Inr (Inl data)) \<Rightarrow> 6 * length data + 1
        | Inr (Inr (Inr data)) \<Rightarrow> 6 * length data + 1)", goal_cases)
  case 1
  show ?case by simp
next
  case (2 data valid_name b x ba)
  then have "length data \<ge> 4" "length x \<noteq> 0"
    by (auto dest: unpack_int_length)
  moreover have "length (slice_to x (- 1)) \<le> length x" by (rule length_slice_to)
  moreover from 2 have "length x \<le> length data - 4" by (simp add: length_slice_4)
  ultimately show ?case by simp
next
  case 3
  then show ?case by simp
next
  case (4 data valid_name b)
  then show ?case using validate_shorter_dom(3) by simp
next
  case (5 data0 valid_name b ba x y)
  then have "length y < length (drop 1 data0)" by (auto dest: get_c_string_shorter)
  then show ?case by simp
qed simp_all

declare validate_document.simps [simp del] validate_elements.simps [simp del]
  validate_element.simps [simp del] validate_element_data.simps [simp del]

definition is_valid :: "value \<Rightarrow> error + bool" where
  "is_valid bson =
     (case bson of
        Str s \<Rightarrow>
          (case validate_document s Valid_object_name of
             Inr remainder \<Rightarrow> Inr (remainder = [])
           | Inl AssertionError \<Rightarrow> Inr False
           | Inl InvalidBSON \<Rightarrow> Inr False
           | Inl e \<Rightarrow> Inl e)
      | _ \<Rightarrow> Inl TypeError)"

section \<open>Decoding\<close>

definition digits_val :: "unicode \<Rightarrow> nat" where
  "digits_val ds = foldl (\<lambda>a d. 10 * a + (d - 48)) 0 ds"

lemma digits_val_str: "digits_val (str n) = n"
proof (induction n rule: str.induct)
  case (1 n)
  show ?case
  proof (cases "n < 10")
    case True
    then show ?thesis by (simp add: str.simps [of n] digits_val_def)
  next
    case False
    with 1 show ?thesis by (simp add: str.simps [of n] digits_val_def)
  qed
qed

lemma str_inject: "str m = str n \<Longrightarrow> m = n"
  by (metis digits_val_str)

lemma inj_str: "inj str"
  by (auto intro: injI str_inject)

type_synonym dict = "(unicode \<times> value) list"

definition get_number :: "bytes \<Rightarrow> error + 64 word \<times> bytes" where
  "get_number data =
     (case unpack_double (take 8 data) of
        Inl e \<Rightarrow> Inl e
      | Inr x \<Rightarrow> Inr (x, drop 8 data))"

definition get_string :: "bytes \<Rightarrow> error + unicode \<times> bytes" where
  "get_string data = get_c_string (drop 4 data)"

definition get_boolean :: "bytes \<Rightarrow> error + bool \<times> bytes" where
  "get_boolean data =
     (case item data 0 of
        Inl e \<Rightarrow> Inl e
      | Inr b \<Rightarrow> Inr (b = 1, drop 1 data))"

text \<open>The loop of \<open>_get_array\<close>: \<open>dict[str(i)]\<close> until the key is missing.\<close>

function get_array_loop :: "dict \<Rightarrow> value list \<Rightarrow> nat \<Rightarrow> value list" where
  "get_array_loop dict result i =
     (case map_of dict (str i) of
        None \<Rightarrow> result
      | Some v \<Rightarrow> get_array_loop dict (result @ [v]) (i + 1))"
  by pat_completeness auto
termination get_array_loop
proof (relation "measure (\<lambda>(dict, result, i). card {j. i \<le> j \<and> str j \<in> fst ` set dict})", goal_cases)
  case 1
  show ?case by simp
next
  case (2 dict result i v)
  have fin: "finite {j. i \<le> j \<and> str j \<in> fst ` set dict}"
    by (rule finite_subset [OF _ finite_vimageI [OF _ inj_str, of "fst ` set dict"]]) auto
  from 2 have "str i \<in> fst ` set dict"
    by (metis domI dom_map_of_conv_image_fst)
  then have "i \<in> {j. i \<le> j \<and> str j \<in> fst ` set dict}"
    and "i \<notin> {j. i + 1 \<le> j \<and> str j \<in> fst ` set dict}"
    by simp_all
  moreover have "{j. i + 1 \<le> j \<and> str j \<in> fst ` set dict} \<subseteq> {j. i \<le> j \<and> str j \<in> fst ` set dict}"
    by auto
  ultimately have "{j. i + 1 \<le> j \<and> str j \<in> fst ` set dict} \<subset> {j. i \<le> j \<and> str j \<in> fst ` set dict}"
    by blast
  from psubset_card_mono [OF fin this] show ?case by simp
qed

declare get_array_loop.simps [simp del]

text \<open>
  A getter returns a native value of its own kind; \<open>as_value\<close> tags it with the
  constructor of that kind.
\<close>

definition as_value :: "('a \<Rightarrow> value) \<Rightarrow> error + 'a \<times> bytes \<Rightarrow> error + value \<times> bytes" where
  "as_value c r = (case r of Inl e \<Rightarrow> Inl e | Inr (x, data) \<Rightarrow> Inr (c x, data))"

function (sequential)
      document_to_dict :: "bytes \<Rightarrow> error + dict \<times> bytes"
  and elements_to_dict :: "bytes \<Rightarrow> error + dict"
  and elements_to_dict_loop :: "bytes \<Rightarrow> dict \<Rightarrow> error + dict"
  and element_to_dict :: "bytes \<Rightarrow> error + unicode \<times> value \<times> bytes"
  and get_object :: "bytes \<Rightarrow> error + dict \<times> bytes"
  and get_array :: "bytes \<Rightarrow> error + value list \<times> bytes"
where
  "document_to_dict data =
     (case unpack_int (take 4 data) of
        Inl e \<Rightarrow> Inl e
      | Inr obj_size \<Rightarrow>
          (case elements_to_dict (slice data 4 (obj_size - 1)) of
             Inl e \<Rightarrow> Inl e
           | Inr d \<Rightarrow> Inr (d, slice_from data obj_size)))"
| "elements_to_dict data = elements_to_dict_loop data []"
| "elements_to_dict_loop data result =
     (if data = [] then Inr result
      else (case element_to_dict data of
              Inl e \<Rightarrow> Inl e
            | Inr (key, v, data') \<Rightarrow> elements_to_dict_loop data' (AList.update key v result)))"
| "element_to_dict data0 =
     (case item data0 0 of
        Inl e \<Rightarrow> Inl e
      | Inr element_type \<Rightarrow>
          (case get_c_string (drop 1 data0) of
             Inl e \<Rightarrow> Inl e
           | Inr (element_name, data) \<Rightarrow>
               (case (if element_type = 0x01 then as_value Float (get_number data)
                      else if element_type = 0x02 then as_value Unicode (get_string data)
                      else if element_type = 0x03 then as_value Dict (get_object data)
                      else if element_type = 0x04 then as_value List (get_array data)
                      else if element_type = 0x08 then as_value Bool (get_boolean data)
                      else if element_type = 0x10 then as_value Integer (get_int data)
                      else Inl KeyError) of
                  Inl e \<Rightarrow> Inl e
                | Inr (v, data') \<Rightarrow> Inr (element_name, v, data'))))"
| "get_object data = document_to_dict data"
| "get_array data0 =
     (case get_object data0 of
        Inl e \<Rightarrow> Inl e
      | Inr (dict, data) \<Rightarrow> Inr (get_array_loop dict [] 0, data))"
  by pat_completeness auto


lemma as_value_Inr: "as_value c r = Inr (v, rest) \<Longrightarrow> \<exists>x. r = Inr (x, rest) \<and> v = c x"
  by (auto simp: as_value_def split: sum.splits)

lemma get_number_shorter: "get_number data = Inr (x, r) \<Longrightarrow> length r \<le> length data"
  by (auto simp: get_number_def split: sum.splits)

lemma get_string_shorter: "get_string data = Inr (x, r) \<Longrightarrow> length r \<le> length data"
  by (auto simp: get_string_def dest!: get_c_string_shorter)

lemma get_boolean_shorter: "get_boolean data = Inr (x, r) \<Longrightarrow> length r \<le> length data"
  by (auto simp: get_boolean_def split: sum.splits)

lemma decode_shorter_dom:
  "document_to_dict_elements_to_dict_elements_to_dict_loop_element_to_dict_get_object_get_array_dom (Inl (Inl data))
     \<Longrightarrow> \<forall>d r. document_to_dict data = Inr (d, r) \<longrightarrow> length r \<le> length data"
  "document_to_dict_elements_to_dict_elements_to_dict_loop_element_to_dict_get_object_get_array_dom (Inl (Inr (Inl data))) \<Longrightarrow> True"
  "document_to_dict_elements_to_dict_elements_to_dict_loop_element_to_dict_get_object_get_array_dom (Inl (Inr (Inr (data, result)))) \<Longrightarrow> True"
  "document_to_dict_elements_to_dict_elements_to_dict_loop_element_to_dict_get_object_get_array_dom (Inr (Inl data))
     \<Longrightarrow> \<forall>k v r. element_to_dict data = Inr (k, v, r) \<longrightarrow> length r < length data"
  "document_to_dict_elements_to_dict_elements_to_dict_loop_element_to_dict_get_object_get_array_dom (Inr (Inr (Inl data)))
     \<Longrightarrow> \<forall>d r. get_object data = Inr (d, r) \<longrightarrow> length r \<le> length data"
  "document_to_dict_elements_to_dict_elements_to_dict_loop_element_to_dict_get_object_get_array_dom (Inr (Inr (Inr data)))
     \<Longrightarrow> \<forall>l r. get_array data = Inr (l, r) \<longrightarrow> length r \<le> length data"
proof (induct rule: document_to_dict_elements_to_dict_elements_to_dict_loop_element_to_dict_get_object_get_array.pinduct)
  case (1 data)
  then show ?case
    by (auto simp: document_to_dict.psimps length_slice_from split: sum.splits)
next
  case (2 data)
  then show ?case by simp
next
  case (3 data result)
  then show ?case by simp
next
  case (4 data0)
  show ?case
  proof (intro allI impI)
    fix k v r assume r: "element_to_dict data0 = Inr (k, v, r)"
    from r 4(1) obtain t d where t: "item data0 0 = Inr t"
      and g: "get_c_string (drop 1 data0) = Inr (k, d)"
      and v: "(if t = 0x01 then as_value Float (get_number d)
               else if t = 0x02 then as_value Unicode (get_string d)
               else if t = 0x03 then as_value Dict (get_object d)
               else if t = 0x04 then as_value List (get_array d)
               else if t = 0x08 then as_value Bool (get_boolean d)
               else if t = 0x10 then as_value Integer (get_int d)
               else Inl KeyError) = Inr (v, r)"
      by (auto simp: element_to_dict.psimps split: sum.splits)
    from v 4(2) [OF t g refl] 4(3) [OF t g refl] have "length r \<le> length d"
      by (auto split: if_splits dest!: as_value_Inr
          dest: get_number_shorter get_string_shorter get_boolean_shorter get_int_shorter)
    moreover from g have "length d < length (drop 1 data0)" by (rule get_c_string_shorter)
    ultimately show "length r < length data0" by simp
  qed
next
  case (5 data)
  then show ?case by (simp add: get_object.psimps)
next
  case (6 data0)
  then show ?case by (auto simp: get_array.psimps split: sum.splits)
qed

termination document_to_dict
proof (relation "measure (\<lambda>x. case x of
          Inl (Inl data) \<Rightarrow> 6 * length data
        | Inl (Inr (Inl data)) \<Rightarrow> 6 * length data + 5
        | Inl (Inr (Inr (data, result))) \<Rightarrow> 6 * length data + 4
        | Inr (Inl data) \<Rightarrow> 6 * length data + 3
        | Inr (Inr (Inl data)) \<Rightarrow> 6 * length data + 1
        | Inr (Inr (Inr data)) \<Rightarrow> 6 * length data + 2)", goal_cases)
  case 1
  show ?case by simp
next
  case (2 data b)
  then have "length data \<ge> 4" by (auto dest: unpack_int_length)
  moreover have "length (slice data 4 (b - 1)) \<le> length data - 4" by (rule length_slice_4)
  ultimately show ?case by simp
next
  case 3
  then show ?case by simp
next
  case 4
  then show ?case by simp
next
  case (5 data result b x y xa ya)
  then show ?case using decode_shorter_dom(4) [of data] by auto
next
  case (6 data0 b ba x y)
  then have "length y < length (drop 1 data0)" by (auto dest: get_c_string_shorter)
  then show ?case by simp
next
  case (7 data0 b ba x y)
  then have "length y < length (drop 1 data0)" by (auto dest: get_c_string_shorter)
  then show ?case by simp
qed simp_all

declare document_to_dict.simps [simp del] elements_to_dict_loop.simps [simp del]
  element_to_dict.simps [simp del] get_array.simps [simp del]

definition to_dict :: "bytes \<Rightarrow> error + dict" where
  "to_dict self =
     (case document_to_dict self of
        Inl e \<Rightarrow> Inl e
      | Inr (dict, rest) \<Rightarrow> Inr dict)"

section \<open>Encoding\<close>

definition int_to_bson :: "int \<Rightarrow> error + bytes" where
  "int_to_bson i = pack_int i"

text \<open>
  \<open>BSON(bson)\<close>, the constructor \<open>__new__\<close>, for a byte string: the string itself when
  it is valid.
\<close>

definition BSON :: "bytes \<Rightarrow> error + bytes" where
  "BSON bson =
     (case is_valid (Str bson) of
        Inl e \<Rightarrow> Inl e
      | Inr ok \<Rightarrow> if \<not> ok then Inl InvalidBSON else Inr bson)"

text \<open>
  \<open>dict(zip(keys, values))\<close> for distinct keys, as \<open>iteritems()\<close> yields it. The
  interpreter walks the slots of the dictionary's hash table, and the slot a key takes
  depends on the interpreter's hash function and on the keys that were inserted:
  \<open>slot keys key\<close> is the index of the slot of \<open>key\<close> in the dictionary built from
  \<open>keys\<close>. The encoder has \<open>slot\<close> as a parameter, and what is proved of the encoder
  is proved for every such function.
\<close>

type_synonym slots = "unicode list \<Rightarrow> unicode \<Rightarrow> nat"

definition dict_of_zip :: "slots \<Rightarrow> unicode list \<Rightarrow> value list \<Rightarrow> dict" where
  "dict_of_zip slot keys vals = sort_key (\<lambda>kv. slot keys (fst kv)) (zip keys vals)"

fun weight :: "value \<Rightarrow> nat" where
  "weight (Dict d) = 1 + sum_list (map (\<lambda>kv. weight (snd kv) + 1) d)"
| "weight (List l) = 2 + sum_list (map (\<lambda>v. weight v + 1) l)"
| "weight v = 0"

function (sequential)
      value_to_bson :: "slots \<Rightarrow> value \<Rightarrow> error + byte \<times> bytes"
  and element_to_bson :: "slots \<Rightarrow> unicode \<Rightarrow> value \<Rightarrow> error + bytes"
  and from_dict :: "slots \<Rightarrow> value \<Rightarrow> error + bytes"
  and join_elements :: "slots \<Rightarrow> dict \<Rightarrow> error + bytes"
where
  "value_to_bson slot (Float x) = Inr (0x01, pack_double x)"
| "value_to_bson slot (Unicode s) =
     (let cstring = make_c_string s in
      case int_to_bson (int (length cstring)) of
        Inl e \<Rightarrow> Inl e
      | Inr len \<Rightarrow> Inr (0x02, len @ cstring))"
| "value_to_bson slot (Dict d) =
     (case from_dict slot (Dict d) of
        Inl e \<Rightarrow> Inl e
      | Inr b \<Rightarrow> Inr (0x03, b))"
| "value_to_bson slot (List l) =
     (let as_dict = dict_of_zip slot (map str [0..<length l]) l in
      case from_dict slot (Dict as_dict) of
        Inl e \<Rightarrow> Inl e
      | Inr b \<Rightarrow> Inr (0x04, b))"
| "value_to_bson slot (Bool b) = (if b then Inr (0x08, [0x01]) else Inr (0x08, [0x00]))"
| "value_to_bson slot (Integer i) =
     (case int_to_bson i of
        Inl e \<Rightarrow> Inl e
      | Inr b \<Rightarrow> Inr (0x10, b))"
| "value_to_bson slot v = Inl InvalidDocument"
| "element_to_bson slot key v =
     (let element_name = make_c_string key in
      case value_to_bson slot v of
        Inl e \<Rightarrow> Inl e
      | Inr (element_type, element_data) \<Rightarrow> Inr (element_type # element_name @ element_data))"
| "from_dict slot (Dict d) =
     (case join_elements slot d of
        Inl e \<Rightarrow> Inl e
      | Inr elements \<Rightarrow>
          (case int_to_bson (int (length elements) + 5) of
             Inl e \<Rightarrow> Inl e
           | Inr len \<Rightarrow> BSON (len @ elements @ [0x00])))"
| "from_dict slot v = Inl TypeError"
| "join_elements slot [] = Inr []"
| "join_elements slot ((key, v) # items) =
     (case element_to_bson slot key v of
        Inl e \<Rightarrow> Inl e
      | Inr b \<Rightarrow>
          (case join_elements slot items of
             Inl e \<Rightarrow> Inl e
           | Inr bs \<Rightarrow> Inr (b @ bs)))"
  by pat_completeness auto

lemma weight_zip: "length ks = length l \<Longrightarrow>
    sum_list (map (\<lambda>kv. weight (snd kv) + 1) (zip ks l)) = sum_list (map (\<lambda>v. weight v + 1) l)"
  by (induction ks l rule: list_induct2) auto

lemma sum_list_insort_key:
  "sum_list (map g (insort_key f x xs)) = (g x :: nat) + sum_list (map g xs)"
  by (induction xs) auto

lemma sum_list_sort_key: "sum_list (map g (sort_key f xs)) = (sum_list (map g xs) :: nat)"
  by (induction xs) (simp_all add: sum_list_insort_key)

lemma weight_dict_of_zip: "length ks = length l \<Longrightarrow>
    sum_list (map (\<lambda>kv. weight (snd kv) + 1) (dict_of_zip slot ks l))
      = sum_list (map (\<lambda>v. weight v + 1) l)"
  by (simp only: dict_of_zip_def sum_list_sort_key weight_zip)

termination value_to_bson
  by (relation "measure (\<lambda>x. case x of
          Inl (Inl (slot, v)) \<Rightarrow> 4 * weight v + 3
        | Inl (Inr (slot, k, v)) \<Rightarrow> 4 * weight v + 4
        | Inr (Inl (slot, v)) \<Rightarrow> 4 * weight v + 2
        | Inr (Inr (slot, d)) \<Rightarrow> 4 * sum_list (map (\<lambda>kv. weight (snd kv) + 1) d) + 1)")
    (use weight_dict_of_zip [of "map str [0..<length l]" l slot for l slot] in auto)

section \<open>The validated document\<close>

lemma validate_document_Inr:
  assumes "validate_document data p = Inr r"
  obtains obj_size where "unpack_int (take 4 data) = Inr obj_size"
    and "obj_size \<le> int (length data)"
    and "slice data 4 obj_size \<noteq> []"
    and "item (slice data 4 obj_size) (- 1) = Inr 0"
    and "validate_elements (slice_to (slice data 4 obj_size) (- 1)) p = Inr ()"
    and "r = slice_from data obj_size"
  using assms
  by (auto simp: validate_document.simps Let_def split: sum.splits if_splits)

lemma validate_document_Inr_Nil:
  assumes "validate_document data p = Inr []"
  shows "unpack_int (take 4 data) = Inr (int (length data))" and "5 \<le> length data"
proof -
  from assms obtain obj_size where u: "unpack_int (take 4 data) = Inr obj_size"
    and le: "obj_size \<le> int (length data)"
    and ne: "slice data 4 obj_size \<noteq> []"
    and r: "[] = slice_from data obj_size"
    by (rule validate_document_Inr)
  from u have len: "4 \<le> length data"
    by (auto dest: unpack_int_length)
  from r len le have eq: "obj_size = int (length data)"
    by (auto simp: slice_from_def clamp_index_def split: if_splits)
  with u show "unpack_int (take 4 data) = Inr (int (length data))" by simp
  from ne eq show "5 \<le> length data"
    by (auto simp: slice_def clamp_index_def Let_def split: if_splits)
qed

lemma is_valid_True:
  "is_valid (Str b) = Inr True \<longleftrightarrow> validate_document b Valid_object_name = Inr []"
  by (auto simp: is_valid_def split: sum.splits error.splits)

text \<open>
  Claim C10 (length exactness). When \<open>is_valid\<close> returns true on a byte string, the
  little-endian signed 32-bit integer in its first four bytes is the length of the whole
  string, and the string has at least five bytes.
\<close>
theorem is_valid_length_exact:
  assumes "is_valid (Str b) = Inr True"
  shows "unpack_int (take 4 b) = Inr (int (length b)) \<and> 5 \<le> length b"
  using assms validate_document_Inr_Nil [of b Valid_object_name]
  by (simp add: is_valid_True)

theorem is_valid_length_exact_witness:
  "is_valid (Str [5, 0, 0, 0, 0]) = Inr True
   \<and> unpack_int (take 4 [5, 0, 0, 0, 0]) = Inr (int (length [5 :: byte, 0, 0, 0, 0]))
   \<and> 5 \<le> length [5 :: byte, 0, 0, 0, 0]"
proof -
  have h: "is_valid (Str [5, 0, 0, 0, 0]) = Inr True" by code_simp
  from is_valid_length_exact [OF h] h show ?thesis by simp
qed

text \<open>
  Claim C5 (trailing garbage). When \<open>is_valid\<close> returns true on a byte string, it
  returns false on that string followed by any non-empty byte string: at the top level
  nothing may follow the declared length.
\<close>
theorem trailing_garbage_rejected:
  assumes "is_valid (Str b) = Inr True" and "g \<noteq> []"
  shows "is_valid (Str (b @ g)) = Inr False"
proof -
  from assms(1) have v: "validate_document b Valid_object_name = Inr []"
    by (simp add: is_valid_True)
  then have u: "unpack_int (take 4 b) = Inr (int (length b))" and len: "5 \<le> length b"
    by (rule validate_document_Inr_Nil)+
  from v obtain obj_size where u': "unpack_int (take 4 b) = Inr obj_size"
    and ne: "slice b 4 obj_size \<noteq> []"
    and eoo: "item (slice b 4 obj_size) (- 1) = Inr 0"
    and els: "validate_elements (slice_to (slice b 4 obj_size) (- 1)) Valid_object_name = Inr ()"
    by (rule validate_document_Inr)
  from u u' have [simp]: "obj_size = int (length b)" by simp
  from len have s: "slice (b @ g) 4 (int (length b)) = slice b 4 (int (length b))"
    by (simp add: slice_def clamp_index_def Let_def)
  from len have t: "take 4 (b @ g) = take 4 b" by simp
  have r: "slice_from (b @ g) (int (length b)) = g"
    by (simp add: slice_from_def clamp_index_def)
  from u ne eoo els assms(2) len have "validate_document (b @ g) Valid_object_name = Inr g"
    by (simp add: validate_document.simps [of "b @ g"] s r Let_def)
  with assms(2) show ?thesis by (simp add: is_valid_def)
qed

theorem trailing_garbage_rejected_witness:
  "is_valid (Str [5, 0, 0, 0, 0]) = Inr True \<and> [0 :: byte] \<noteq> []
   \<and> is_valid (Str ([5, 0, 0, 0, 0] @ [0])) = Inr False"
proof -
  have h: "is_valid (Str [5, 0, 0, 0, 0]) = Inr True" by code_simp
  have g: "[0 :: byte] \<noteq> []" by simp
  from trailing_garbage_rejected [OF h g] h show ?thesis by simp
qed

text \<open>
  Claim C4 (minimal document). The five bytes \<open>05 00 00 00 00\<close> are valid, they decode
  to the empty dictionary, and the empty dictionary encodes to exactly these bytes.
\<close>
theorem minimal_document:
  "is_valid (Str [0x05, 0x00, 0x00, 0x00, 0x00]) = Inr True
   \<and> to_dict [0x05, 0x00, 0x00, 0x00, 0x00] = Inr []
   \<and> from_dict slot (Dict []) = Inr [0x05, 0x00, 0x00, 0x00, 0x00]"
  by code_simp

subsection \<open>Boolean payloads\<close>

text \<open>
  Claim C8 says that the validator accepts a Boolean payload only when its byte is
  \<open>00\<close> or \<open>01\<close>. \<open>_validate_boolean\<close> looks at the length alone: the payload byte
  \<open>02\<close> is accepted, and the nine-byte document that carries it is valid.
\<close>
theorem boolean_payload_counterexample:
  "validate_element_data 0x08 [0x02] = Inr []
   \<and> is_valid (Str [0x09, 0x00, 0x00, 0x00, 0x08, 0x62, 0x00, 0x02, 0x00]) = Inr True"
  by code_simp

text \<open>
  Claim C8 as the code has it: the validator accepts a Boolean payload whenever one byte
  is left, whatever its value, and consumes exactly that byte; with no byte left the
  assertion fails.
\<close>

theorem validate_boolean_any_byte:
  "validate_element_data 0x08 (b # rest) = Inr rest
   \<and> validate_element_data 0x08 [] = Inl AssertionError"
  by (simp add: validate_element_data.simps validate_boolean_def)

subsection \<open>String payloads\<close>

text \<open>
  Claim C9 (String payload: a length of at least one, that many bytes, the last of them
  zero, \<open>4 + byteLen\<close> bytes consumed), evaluated where the code departs from it. With
  the length \<open>0\<close> the subscript \<open>data[length - 1]\<close> is \<open>data[-1]\<close>, the last byte of
  all that remains: the payload \<open>00 00 00 00\<close> is accepted when the bytes after it end
  in zero, four bytes are consumed, and the document around it is valid.
\<close>
theorem validate_string_nonpositive_length:
  "validate_element_data 0x02 [0x00, 0x00, 0x00, 0x00, 0x0A, 0x6E, 0x00] = Inr [0x0A, 0x6E, 0x00]
   \<and> is_valid (Str [0x0F, 0x00, 0x00, 0x00, 0x02, 0x61, 0x00, 0x00, 0x00, 0x00, 0x00,
                     0x0A, 0x6E, 0x00, 0x00]) = Inr True"
  by code_simp

text \<open>
  With a length of at least one the validator does what the claim says: it accepts when
  that many bytes are left and the last of them is zero, and steps over them.
\<close>

lemma validate_string_positive:
  assumes "get_int data0 = Inr (len, data)" and "1 \<le> len"
  shows "validate_string data0 =
     (if len \<le> int (length data) \<and> data ! (nat len - 1) = 0 then Inr (drop (nat len) data)
      else Inl AssertionError)"
proof -
  from assms(2) have i: "item data (len - 1) =
      (if len \<le> int (length data) then Inr (data ! (nat len - 1)) else Inl IndexError)"
    by (auto simp: item_def Let_def nat_diff_distrib)
  from assms(2) have s: "slice_from data len = drop (nat len) data"
    by (auto simp: slice_from_def clamp_index_def min_def)
  show ?thesis
    unfolding validate_string_def assms(1) by (simp add: i s)
qed

subsection \<open>Exceptions that leave \<open>is_valid\<close>\<close>

text \<open>
  Claim C2 (\<open>is_valid\<close> never raises on a byte string), evaluated where the code departs
  from it. A String element of length \<open>0\<close> with nothing after it makes
  \<open>_validate_string\<close> subscript the empty string: \<open>IndexError\<close>, which \<open>is_valid\<close>
  does not catch. An element name that is not UTF-8 raises \<open>UnicodeDecodeError\<close> in
  \<open>_get_c_string\<close>, which it does not catch either.
\<close>
theorem is_valid_raises_IndexError:
  "is_valid (Str [0x0B, 0x00, 0x00, 0x00, 0x02, 0x00, 0x00, 0x00, 0x00, 0x00, 0x00]) = Inl IndexError
   \<and> is_valid (Str [0x08, 0x00, 0x00, 0x00, 0x06, 0xFF, 0x00, 0x00]) = Inl UnicodeDecodeError"
  by code_simp

text \<open>The other half of the claim holds: what is not a byte string raises \<open>TypeError\<close>.\<close>

lemma is_valid_TypeError: "(\<And>s. bson \<noteq> Str s) \<Longrightarrow> is_valid bson = Inl TypeError"
  by (cases bson) (auto simp: is_valid_def)

section \<open>Arrays\<close>

lemma get_array_loop_spec:
  assumes "length result = i"
    and "\<forall>j<i. map_of dict (str j) = Some (result ! j)"
  shows "(\<forall>j<length (get_array_loop dict result i).
            map_of dict (str j) = Some (get_array_loop dict result i ! j))
         \<and> map_of dict (str (length (get_array_loop dict result i))) = None"
  using assms
proof (induction dict result i rule: get_array_loop.induct)
  case (1 dict result i)
  show ?case
  proof (cases "map_of dict (str i)")
    case None
    with "1.prems" show ?thesis
      by (simp add: get_array_loop.simps [of dict result i])
  next
    case (Some v)
    have len: "length (result @ [v]) = i + 1"
      using "1.prems"(1) by simp
    have inv: "\<forall>j<i + 1. map_of dict (str j) = Some ((result @ [v]) ! j)"
      using "1.prems" Some by (auto simp: nth_append less_Suc_eq)
    from "1.IH" [OF Some len inv] Some show ?thesis
      by (simp add: get_array_loop.simps [of dict result i])
  qed
qed

text \<open>
  Claim C6 (array reconstruction). An Array payload is first decoded as an embedded
  document (\<open>get_object\<close>), whose failure is the array's failure. The sequence returned
  holds, at each index \<open>i\<close> below its length, the value the dictionary binds to the key
  \<open>str i\<close>, and the key of its length is absent from the dictionary: the keys
  \<open>"0"\<close>, \<open>"1"\<close>, ... are read in increasing order up to the first gap, and no other
  entry of the dictionary reaches the sequence. The bytes left over are those the
  embedded document leaves.
\<close>

theorem get_array_reconstruction:
  "(\<forall>e. get_object data = Inl e \<longrightarrow> get_array data = Inl e)
   \<and> (\<forall>dict rest. get_object data = Inr (dict, rest) \<longrightarrow>
        (\<exists>l. get_array data = Inr (l, rest)
           \<and> (\<forall>i<length l. map_of dict (str i) = Some (l ! i))
           \<and> map_of dict (str (length l)) = None))"
proof (intro conjI allI impI)
  fix e assume "get_object data = Inl e"
  then show "get_array data = Inl e"
    by (simp add: get_array.simps)
next
  fix dict rest assume g: "get_object data = Inr (dict, rest)"
  have "get_array data = Inr (get_array_loop dict [] 0, rest)"
    using g by (simp add: get_array.simps)
  moreover have "(\<forall>j<length (get_array_loop dict [] 0).
            map_of dict (str j) = Some (get_array_loop dict [] 0 ! j))
         \<and> map_of dict (str (length (get_array_loop dict [] 0))) = None"
    by (rule get_array_loop_spec) simp_all
  ultimately show "\<exists>l. get_array data = Inr (l, rest)
           \<and> (\<forall>i<length l. map_of dict (str i) = Some (l ! i))
           \<and> map_of dict (str (length l)) = None"
    by blast
qed

text \<open>
  The array document with the keys \<open>"0"\<close> and \<open>"2"\<close>: the sequence stops at the gap
  \<open>"1"\<close> and the entry \<open>"2"\<close> is dropped.
\<close>

theorem get_array_reconstruction_witness:
  "get_object [0x0D, 0, 0, 0, 0x08, 0x30, 0, 1, 0x08, 0x32, 0, 0, 0]
     = Inr ([(str 0, Bool True), (str 2, Bool False)], [])
   \<and> get_array [0x0D, 0, 0, 0, 0x08, 0x30, 0, 1, 0x08, 0x32, 0, 0, 0] = Inr ([Bool True], [])
   \<and> map_of [(str 0, Bool True), (str 2, Bool False)] (str (length [Bool True])) = None"
proof -
  have g: "get_object [0x0D, 0, 0, 0, 0x08, 0x30, 0, 1, 0x08, 0x32, 0, 0, 0]
     = Inr ([(str 0, Bool True), (str 2, Bool False)], [])"
    by code_simp
  have a: "get_array [0x0D, 0, 0, 0, 0x08, 0x30, 0, 1, 0x08, 0x32, 0, 0, 0] = Inr ([Bool True], [])"
    by code_simp
  from get_array_reconstruction [of "[0x0D, 0, 0, 0, 0x08, 0x30, 0, 1, 0x08, 0x32, 0, 0, 0]"] g
  obtain l where "get_array [0x0D, 0, 0, 0, 0x08, 0x30, 0, 1, 0x08, 0x32, 0, 0, 0] = Inr (l, [])"
    and "map_of [(str 0, Bool True), (str 2, Bool False)] (str (length l)) = None"
    by blast
  with a g show ?thesis by simp
qed

section \<open>The decoder's walk over the elements\<close>

text \<open>
  \<open>elements_seq data es rest\<close>: starting at \<open>data\<close>, the loop of \<open>_elements_to_dict\<close>
  reads the elements \<open>es\<close>, name and value, one after the other in buffer order, and
  then stands at \<open>rest\<close>.
\<close>

inductive elements_seq :: "bytes \<Rightarrow> (unicode \<times> value) list \<Rightarrow> bytes \<Rightarrow> bool" where
  seq_end: "elements_seq data [] data"
| seq_step: "data \<noteq> [] \<Longrightarrow> element_to_dict data = Inr (key, v, data')
         \<Longrightarrow> elements_seq data' es rest \<Longrightarrow> elements_seq data ((key, v) # es) rest"

definition assign :: "dict \<Rightarrow> unicode \<times> value \<Rightarrow> dict" where
  "assign result kv = AList.update (fst kv) (snd kv) result"

lemma elements_to_dict_loop_seq:
  "elements_seq data es rest \<Longrightarrow>
     elements_to_dict_loop data result = elements_to_dict_loop rest (foldl assign result es)"
proof (induction arbitrary: result rule: elements_seq.induct)
  case (seq_end data)
  show ?case by simp
next
  case (seq_step data key v data' es rest)
  then show ?case
    by (simp add: elements_to_dict_loop.simps [of data] assign_def)
qed

lemma map_of_foldl_assign:
  "map_of (foldl assign result es) k =
     (case map_of (rev es) k of None \<Rightarrow> map_of result k | Some v \<Rightarrow> Some v)"
proof (induction es arbitrary: result)
  case Nil
  show ?case by simp
next
  case (Cons kv es)
  have a: "map_of (foldl assign result (kv # es)) k =
      (case map_of (rev es) k of None \<Rightarrow> map_of (assign result kv) k | Some v \<Rightarrow> Some v)"
    by (simp add: Cons.IH)
  have b: "map_of (assign result kv) k = (if k = fst kv then Some (snd kv) else map_of result k)"
    by (simp add: assign_def update_conv')
  have c: "map_of (rev (kv # es)) k =
      (case map_of (rev es) k of None \<Rightarrow> (if k = fst kv then Some (snd kv) else None)
       | Some v \<Rightarrow> Some v)"
    by (cases kv) (simp add: map_add_def split: option.splits)
  show ?case
    unfolding a b c by (auto split: option.splits)
qed

lemma map_of_rev_last:
  "k \<notin> fst ` set es2 \<Longrightarrow> map_of (rev (es1 @ (k, v) # es2)) k = Some v"
  by (simp add: map_add_def map_of_eq_None_iff [THEN iffD2])



section \<open>Tags the decoder has no getter for\<close>

definition recognized_only :: "byte set" where
  "recognized_only = {0x05, 0x06, 0x07, 0x09, 0x0A, 0x0B, 0x0C, 0x0D, 0x0E}"

text \<open>
  Where the two walks stand. \<open>validator_reaches data p rest\<close>: validating the elements
  \<open>data\<close> under the name pattern \<open>p\<close>, \<open>_validate_elements\<close> comes to validate the
  elements \<open>rest\<close>, in this document or in an embedded one. \<open>decoder_reaches data rest\<close>:
  the same for \<open>_elements_to_dict\<close>. The validator steps over a String by its declared
  length, the decoder by its first zero byte, so the two need not agree.
\<close>

inductive validator_reaches :: "bytes \<Rightarrow> name_pattern \<Rightarrow> bytes \<Rightarrow> bool" where
  v_here: "validator_reaches data p data"
| v_over: "data \<noteq> [] \<Longrightarrow> validate_element data p = Inr data'
           \<Longrightarrow> validator_reaches data' p rest \<Longrightarrow> validator_reaches data p rest"
| v_into: "item data 0 = Inr t
           \<Longrightarrow> t = 0x03 \<and> p' = Valid_object_name \<or> t = 0x04 \<and> p' = Valid_array_name
           \<Longrightarrow> get_c_string (drop 1 data) = Inr (name, payload)
           \<Longrightarrow> unpack_int (take 4 payload) = Inr obj_size
           \<Longrightarrow> validator_reaches (slice_to (slice payload 4 obj_size) (- 1)) p' rest
           \<Longrightarrow> validator_reaches data p rest"

inductive decoder_reaches :: "bytes \<Rightarrow> bytes \<Rightarrow> bool" where
  d_here: "decoder_reaches data data"
| d_over: "data \<noteq> [] \<Longrightarrow> element_to_dict data = Inr (key, v, data')
           \<Longrightarrow> decoder_reaches data' rest \<Longrightarrow> decoder_reaches data rest"
| d_into: "item data 0 = Inr t
           \<Longrightarrow> t = 0x03 \<or> t = 0x04
           \<Longrightarrow> get_c_string (drop 1 data) = Inr (name, payload)
           \<Longrightarrow> unpack_int (take 4 payload) = Inr obj_size
           \<Longrightarrow> decoder_reaches (slice payload 4 (obj_size - 1)) rest
           \<Longrightarrow> decoder_reaches data rest"

lemma item_0: "item data 0 = Inr t \<longleftrightarrow> data \<noteq> [] \<and> t = hd data"
  by (cases data) (auto simp: item_def)

lemma validator_reaches_valid:
  "validator_reaches data p rest \<Longrightarrow> validate_elements data p = Inr ()
     \<Longrightarrow> \<exists>q. validate_elements rest q = Inr ()"
proof (induction rule: validator_reaches.induct)
  case (v_here data p)
  then show ?case by blast
next
  case (v_over data p data' rest)
  then show ?case
    by (simp add: validate_elements.simps [of data])
next
  case (v_into data t p' name payload obj_size rest p)
  from v_into.hyps(1) have ne: "data \<noteq> []" by (simp add: item_0)
  from v_into.prems ne obtain r where "validate_element data p = Inr r"
    by (auto simp: validate_elements.simps [of data] split: sum.splits)
  with v_into.hyps(1,3) obtain r' where "validate_element_data t payload = Inr r'"
    by (auto simp: validate_element.simps [of data] split: if_splits)
  with v_into.hyps(2) have "validate_document payload p' = Inr r'"
    by (auto simp: validate_element_data.simps [of t] split: sum.splits error.splits)
  with v_into.hyps(4)
  have "validate_elements (slice_to (slice payload 4 obj_size) (- 1)) p' = Inr ()"
    by (auto elim!: validate_document_Inr)
  then show ?case by (rule v_into.IH)
qed

lemma validate_elements_name:
  assumes "validate_elements rest q = Inr ()" and "rest \<noteq> []"
  shows "\<exists>name payload. get_c_string (drop 1 rest) = Inr (name, payload)"
proof -
  from assms obtain r where "validate_element rest q = Inr r"
    by (auto simp: validate_elements.simps [of rest] split: sum.splits)
  then show ?thesis
    by (auto simp: validate_element.simps [of rest] split: sum.splits)
qed

lemma element_to_dict_KeyError:
  assumes "rest \<noteq> []" and "hd rest \<in> recognized_only"
    and "get_c_string (drop 1 rest) = Inr (name, payload)"
  shows "element_to_dict rest = Inl KeyError"
proof -
  from assms(1) have "item rest 0 = Inr (hd rest)" by (simp add: item_0)
  with assms(2,3) show ?thesis
    by (auto simp: element_to_dict.simps [of rest] recognized_only_def)
qed

lemma decoder_reaches_KeyError:
  "decoder_reaches data rest \<Longrightarrow> rest \<noteq> [] \<Longrightarrow> hd rest \<in> recognized_only
     \<Longrightarrow> get_c_string (drop 1 rest) = Inr (n, pl)
     \<Longrightarrow> elements_to_dict_loop data result = Inl KeyError"
proof (induction arbitrary: result rule: decoder_reaches.induct)
  case (d_here data)
  then show ?case
    by (simp add: elements_to_dict_loop.simps [of data] element_to_dict_KeyError)
next
  case (d_over data key v data' rest)
  then show ?case
    by (simp add: elements_to_dict_loop.simps [of data])
next
  case (d_into data t name payload obj_size rest)
  from d_into.hyps(1) have ne: "data \<noteq> []" by (simp add: item_0)
  have "elements_to_dict_loop (slice payload 4 (obj_size - 1)) [] = Inl KeyError"
    using d_into.prems by (rule d_into.IH)
  with d_into.hyps(4) have "get_object payload = Inl KeyError"
    by (simp add: document_to_dict.simps [of payload])
  then have "get_array payload = Inl KeyError"
    by (simp add: get_array.simps [of payload])
  with \<open>get_object payload = Inl KeyError\<close> d_into.hyps(1,2,3)
  have "element_to_dict data = Inl KeyError"
    by (auto simp: element_to_dict.simps [of data] as_value_def)
  with ne show ?case
    by (simp add: elements_to_dict_loop.simps [of data])
qed

lemma valid_elements_slices:
  assumes "5 \<le> length b"
  shows "slice_to (slice b 4 (int (length b))) (- 1) = butlast (drop 4 b)"
    and "slice b 4 (int (length b) - 1) = butlast (drop 4 b)"
  using assms
  by (simp_all add: slice_def slice_to_def clamp_index_def Let_def butlast_conv_take nat_diff_distrib
      min_def)

text \<open>
  Claim C3 (a buffer the validator accepts, with an element whose tag is recognized only
  structurally, fails to decode with an unsupported-type error), evaluated where the code
  departs from it. The String \<open>s\<close> below has the five-byte payload \<open>61 00 02 6B 00\<close>.
  \<open>_validate_string\<close> steps over all five bytes, by the declared length, and the
  validator then sees the Null elements \<open>n\<close> and \<open>b\<close>. \<open>_get_string\<close> ignores the
  declared length and ends the String at its first zero byte: the decoder reads what
  follows as a String element \<open>k\<close> that swallows both Null elements, and \<open>to_dict\<close>
  returns a dictionary.
\<close>

theorem hidden_tag_decodes:
  "is_valid (Str [0x17, 0, 0, 0, 0x02, 0x73, 0, 5, 0, 0, 0, 0x61, 0, 0x02, 0x6B, 0,
                  0x0A, 0x6E, 0, 0x0A, 0x62, 0, 0]) = Inr True
   \<and> validate_element [0x02, 0x73, 0, 5, 0, 0, 0, 0x61, 0, 0x02, 0x6B, 0,
                        0x0A, 0x6E, 0, 0x0A, 0x62, 0] Valid_object_name
       = Inr [0x0A, 0x6E, 0, 0x0A, 0x62, 0]
   \<and> validate_element [0x0A, 0x6E, 0, 0x0A, 0x62, 0] Valid_object_name = Inr [0x0A, 0x62, 0]
   \<and> to_dict [0x17, 0, 0, 0, 0x02, 0x73, 0, 5, 0, 0, 0, 0x61, 0, 0x02, 0x6B, 0,
               0x0A, 0x6E, 0, 0x0A, 0x62, 0, 0]
       = Inr [([0x73], Unicode [0x61]), ([0x6B], Unicode [0x62])]"
  by code_simp

text \<open>
  Where the decoder is not led astray the claim holds. Let the validator accept a buffer,
  and let an element whose tag is recognized only structurally be reached, at any nesting
  depth, both by the validator's walk over the elements of the buffer and by the
  decoder's walk over them. Then \<open>to_dict\<close> fails with \<open>KeyError\<close>, the exception of the
  lookup in \<open>_element_getter\<close>.
\<close>

lemma unsupported_tag_KeyError:
  assumes "is_valid (Str b) = Inr True"
    and "validator_reaches (butlast (drop 4 b)) Valid_object_name rest"
    and "decoder_reaches (butlast (drop 4 b)) rest"
    and "rest \<noteq> []" and "hd rest \<in> recognized_only"
  shows "to_dict b = Inl KeyError"
proof -
  from assms(1) have v: "validate_document b Valid_object_name = Inr []"
    by (simp add: is_valid_True)
  then have u: "unpack_int (take 4 b) = Inr (int (length b))" and len: "5 \<le> length b"
    by (rule validate_document_Inr_Nil)+
  from v u have "validate_elements (slice_to (slice b 4 (int (length b))) (- 1)) Valid_object_name
      = Inr ()"
    by (auto elim!: validate_document_Inr)
  with len have "validate_elements (butlast (drop 4 b)) Valid_object_name = Inr ()"
    by (simp add: valid_elements_slices)
  with assms(2) obtain q where "validate_elements rest q = Inr ()"
    by (blast dest: validator_reaches_valid)
  with assms(4) obtain name payload where "get_c_string (drop 1 rest) = Inr (name, payload)"
    by (blast dest: validate_elements_name)
  with assms(3,4,5) have "elements_to_dict_loop (butlast (drop 4 b)) [] = Inl KeyError"
    by (rule decoder_reaches_KeyError)
  with u len show ?thesis
    by (simp add: to_dict_def document_to_dict.simps [of b] valid_elements_slices)
qed

text \<open>
  An embedded document \<open>d\<close> whose only element is the Null element \<open>n\<close>: both walks
  go into the embedded document and stand at the Null element.
\<close>

lemma unsupported_tag_KeyError_example:
  "is_valid (Str [0x10, 0, 0, 0, 0x03, 0x64, 0, 8, 0, 0, 0, 0x0A, 0x6E, 0, 0, 0]) = Inr True
   \<and> validator_reaches (butlast (drop 4 [0x10, 0, 0, 0, 0x03, 0x64, 0, 8, 0, 0, 0, 0x0A, 0x6E, 0, 0, 0]))
        Valid_object_name [0x0A, 0x6E, 0]
   \<and> decoder_reaches (butlast (drop 4 [0x10, 0, 0, 0, 0x03, 0x64, 0, 8, 0, 0, 0, 0x0A, 0x6E, 0, 0, 0]))
        [0x0A, 0x6E, 0]
   \<and> hd [0x0A, 0x6E, 0] \<in> recognized_only
   \<and> to_dict [0x10, 0, 0, 0, 0x03, 0x64, 0, 8, 0, 0, 0, 0x0A, 0x6E, 0, 0, 0] = Inl KeyError"
proof -
  let ?b = "[0x10, 0, 0, 0, 0x03, 0x64, 0, 8, 0, 0, 0, 0x0A, 0x6E, 0, 0, 0] :: bytes"
  let ?els = "[0x03, 0x64, 0, 8, 0, 0, 0, 0x0A, 0x6E, 0, 0] :: bytes"
  let ?payload = "[8, 0, 0, 0, 0x0A, 0x6E, 0, 0] :: bytes"
  let ?rest = "[0x0A, 0x6E, 0] :: bytes"
  have valid: "is_valid (Str ?b) = Inr True" by code_simp
  have els: "butlast (drop 4 ?b) = ?els" by simp
  have t: "item ?els 0 = Inr 0x03" by code_simp
  have n: "get_c_string (drop 1 ?els) = Inr ([0x64], ?payload)" by code_simp
  have u: "unpack_int (take 4 ?payload) = Inr 8" by code_simp
  have sv: "slice_to (slice ?payload 4 8) (- 1) = ?rest" by code_simp
  have sd: "slice ?payload 4 7 = ?rest" by code_simp
  have vr: "validator_reaches (butlast (drop 4 ?b)) Valid_object_name ?rest"
    unfolding els
    by (rule v_into [OF t _ n u, of Valid_object_name]) (simp_all add: sv v_here)
  have dr: "decoder_reaches (butlast (drop 4 ?b)) ?rest"
    unfolding els
    by (rule d_into [OF t _ n u]) (simp_all add: sd d_here)
  have ne: "?rest \<noteq> []" by simp
  have tag: "hd ?rest \<in> recognized_only" by (simp add: recognized_only_def)
  from unsupported_tag_KeyError [OF valid vr dr ne tag] valid vr dr tag show ?thesis
    by simp
qed

section \<open>Round trips of the codecs\<close>

lemma length_le_bytes [simp]: "length (le_bytes k n) = k"
  by (induction k arbitrary: n) auto

lemma le_nat_le_bytes: "le_nat (le_bytes k n) = n mod 256 ^ k"
proof (induction k arbitrary: n)
  case 0
  show ?case by simp
next
  case (Suc k)
  have a: "unat (of_nat (n mod 256) :: byte) = n mod 256"
    by (simp add: unat_of_nat)
  have "le_nat (le_bytes (Suc k) n) = n mod 256 + 256 * (n div 256 mod 256 ^ k)"
    by (simp only: le_bytes.simps le_nat.simps a Suc.IH)
  also have "\<dots> = n mod (256 * 256 ^ k)"
    by (simp only: mod_mult2_eq add.commute)
  finally show ?case by simp
qed


lemma int32_mod:
  assumes "- 2147483648 \<le> (i::int)" "i < 2147483648"
  shows "i mod 4294967296 = (if 0 \<le> i then i else i + 4294967296)"
proof (cases "0 \<le> i")
  case True
  with assms show ?thesis by simp
next
  case False
  with assms have "0 \<le> i + 4294967296" "i + 4294967296 < 4294967296" by simp_all
  then have "(i + 4294967296) mod 4294967296 = i + 4294967296"
    by (rule mod_pos_pos_trivial)
  with False show ?thesis by simp
qed

lemma unpack_pack_int:
  assumes "pack_int i = Inr s"
  shows "unpack_int s = Inr i"
proof -
  from assms have range: "- 2147483648 \<le> i" "i < 2147483648"
    and s: "s = le_bytes 4 (nat (i mod 4294967296))"
    by (auto simp: pack_int_def split: if_splits)
  have m: "i mod 4294967296 = (if 0 \<le> i then i else i + 4294967296)"
    using range by (rule int32_mod)
  have "le_nat s = nat (i mod 4294967296) mod 256 ^ 4"
    unfolding s by (rule le_nat_le_bytes)
  also have "\<dots> = nat (i mod 4294967296)"
    using range by (simp add: m)
  finally have "int (le_nat s) = i mod 4294967296"
    by simp
  with range show ?thesis
    by (simp add: unpack_int_def s m Let_def)
qed

lemma pack_int_length: "pack_int i = Inr s \<Longrightarrow> length s = 4"
  by (auto simp: pack_int_def split: if_splits)

lemma pack_int_nat:
  "n < 2147483648 \<Longrightarrow> pack_int (int n) = Inr (le_bytes 4 n)"
  by (simp add: pack_int_def)

lemma unpack_pack_double: "unpack_double (pack_double x) = Inr x"
proof -
  have "unat x < 2 ^ 64"
    using unsigned_less [of x, where 'a = nat] by simp
  then have "unat x mod 256 ^ 8 = unat x" by simp
  then show ?thesis
    by (simp add: unpack_double_def pack_double_def le_nat_le_bytes)
qed

lemma length_pack_double [simp]: "length (pack_double x) = 8"
  by (simp add: pack_double_def)

text \<open>
  Text the codec returns unchanged: code points up to U+10FFFF (a build of the
  interpreter with four-byte characters), and no high surrogate directly followed by a
  low one, which the encoder would join into one code point.
\<close>

fun text_ok :: "unicode \<Rightarrow> bool" where
  "text_ok [] = True"
| "text_ok [c] = (c < 1114112)"
| "text_ok (c # c2 # cs) =
     (c < 1114112 \<and> \<not> (55296 \<le> c \<and> c \<le> 56319 \<and> 56320 \<le> c2 \<and> c2 \<le> 57343)
      \<and> text_ok (c2 # cs))"

lemma unat_byte: "k < 256 \<Longrightarrow> unat (of_nat k :: byte) = k"
  by (simp add: unat_of_nat)

lemma split3: "(c::nat) div 4096 * 4096 + c div 64 mod 64 * 64 + c mod 64 = c"
proof -
  have "c mod 4096 = 64 * (c div 64 mod 64) + c mod 64"
    using mod_mult2_eq [of c 64 64] by simp
  moreover have "c = c div 4096 * 4096 + c mod 4096" by simp
  ultimately show ?thesis by linarith
qed

lemma split4:
  "(c::nat) div 262144 * 262144 + c div 4096 mod 64 * 4096 + c div 64 mod 64 * 64 + c mod 64 = c"
proof -
  have "c mod 4096 = 64 * (c div 64 mod 64) + c mod 64"
    using mod_mult2_eq [of c 64 64] by simp
  moreover have "c mod 262144 = 4096 * (c div 4096 mod 64) + c mod 4096"
    using mod_mult2_eq [of c 4096 64] by simp
  moreover have "c = c div 262144 * 262144 + c mod 262144" by simp
  ultimately show ?thesis by linarith
qed

lemma cont_byte: "k < 64 \<Longrightarrow> cont (of_nat (128 + k))"
  unfolding cont_def by (subst (1 2) unat_byte) simp_all

lemma decode_1:
  "c < 128 \<Longrightarrow> utf8_decode (of_nat c # bs) = map_option ((#) c) (utf8_decode bs)"
  by (simp add: unat_byte)

lemma decode_2:
  assumes "128 \<le> c" "c < 2048"
  shows "utf8_decode (of_nat (192 + c div 64) # of_nat (128 + c mod 64) # bs)
    = map_option ((#) c) (utf8_decode bs)"
proof -
  from assms have d: "c div 64 < 32" by simp
  then have b0: "unat (of_nat (192 + c div 64) :: byte) = 192 + c div 64"
    by (intro unat_byte) simp
  have b1: "unat (of_nat (128 + c mod 64) :: byte) = 128 + c mod 64"
    by (intro unat_byte) simp
  have c1: "cont (of_nat (128 + c mod 64))" by (intro cont_byte) simp
  show ?thesis
    using assms d by (simp add: b0 b1 c1 Let_def del: of_nat_add)
qed

lemma decode_3:
  assumes "2048 \<le> c" "c < 65536"
  shows "utf8_decode (encode3 c @ bs) = map_option ((#) c) (utf8_decode bs)"
proof -
  from assms have d: "c div 4096 < 16" by simp
  then have b0: "unat (of_nat (224 + c div 4096) :: byte) = 224 + c div 4096"
    by (intro unat_byte) simp
  have b1: "unat (of_nat (128 + c div 64 mod 64) :: byte) = 128 + c div 64 mod 64"
    by (intro unat_byte) simp
  have b2: "unat (of_nat (128 + c mod 64) :: byte) = 128 + c mod 64"
    by (intro unat_byte) simp
  have c1: "cont (of_nat (128 + c div 64 mod 64))" "cont (of_nat (128 + c mod 64))"
    by (intro cont_byte; simp)+
  show ?thesis
    using assms d split3 [of c]
    by (simp add: encode3_def b0 b1 b2 c1 Let_def del: of_nat_add)
qed

lemma decode_4:
  assumes "65536 \<le> c" "c < 1114112"
  shows "utf8_decode (encode4 c @ bs) = map_option ((#) c) (utf8_decode bs)"
proof -
  from assms have d: "c div 262144 < 5" by simp
  then have b0: "unat (of_nat (240 + c div 262144) :: byte) = 240 + c div 262144"
    by (intro unat_byte) simp
  have b1: "unat (of_nat (128 + c div 4096 mod 64) :: byte) = 128 + c div 4096 mod 64"
    by (intro unat_byte) simp
  have b2: "unat (of_nat (128 + c div 64 mod 64) :: byte) = 128 + c div 64 mod 64"
    by (intro unat_byte) simp
  have b3: "unat (of_nat (128 + c mod 64) :: byte) = 128 + c mod 64"
    by (intro unat_byte) simp
  have c1: "cont (of_nat (128 + c div 4096 mod 64))" "cont (of_nat (128 + c div 64 mod 64))"
    "cont (of_nat (128 + c mod 64))"
    by (intro cont_byte; simp)+
  show ?thesis
    using assms d split4 [of c]
    by (simp add: encode4_def b0 b1 b2 b3 c1 Let_def del: of_nat_add)
qed

definition encode1 :: "nat \<Rightarrow> bytes" where
  "encode1 c =
     (if c < 128 then [of_nat c]
      else if c < 2048 then [of_nat (192 + c div 64), of_nat (128 + c mod 64)]
      else if c < 65536 then encode3 c
      else encode4 c)"

lemma utf8_encode_Cons:
  assumes "\<not> (55296 \<le> c \<and> c \<le> 56319 \<and> (case cs of [] \<Rightarrow> False | c2 # r \<Rightarrow> 56320 \<le> c2 \<and> c2 \<le> 57343))"
  shows "utf8_encode (c # cs) = encode1 c @ utf8_encode cs"
proof (cases cs)
  case Nil
  then show ?thesis by (simp add: encode1_def)
next
  case (Cons c2 r)
  with assms have "\<not> (55296 \<le> c \<and> c \<le> 56319 \<and> 56320 \<le> c2 \<and> c2 \<le> 57343)"
    by simp
  then show ?thesis
    unfolding Cons utf8_encode.simps(2) [of c "c2 # r"] encode1_def
    by (simp only: list.case if_False append.simps split: if_splits) auto
qed

lemma decode_encode1:
  assumes "c < 1114112"
  shows "utf8_decode (encode1 c @ bs) = map_option ((#) c) (utf8_decode bs)"
proof -
  consider "c < 128" | "128 \<le> c" "c < 2048" | "2048 \<le> c" "c < 65536" | "65536 \<le> c"
    by linarith
  then show ?thesis
  proof cases
    case 1
    then show ?thesis
      unfolding encode1_def by (simp only: if_True append.simps decode_1)
  next
    case 2
    then have "encode1 c = [of_nat (192 + c div 64), of_nat (128 + c mod 64)]"
      unfolding encode1_def by (simp only: not_less [symmetric] if_False if_True)
    with 2 show ?thesis
      by (simp only: append.simps decode_2)
  next
    case 3
    then have "encode1 c = encode3 c"
      unfolding encode1_def by (simp del: of_nat_add)
    with 3 show ?thesis
      by (simp only: decode_3)
  next
    case 4
    then have "encode1 c = encode4 c"
      unfolding encode1_def by (simp del: of_nat_add)
    with 4 assms show ?thesis
      by (simp only: decode_4)
  qed
qed

lemma of_nat_byte_nonzero: "0 < k \<Longrightarrow> k < 256 \<Longrightarrow> (of_nat k :: byte) \<noteq> 0"
  using unat_byte [of k] by (metis less_numeral_extra(3) unat_0)

lemma encode1_nonzero:
  assumes "c < 1114112" "c \<noteq> 0"
  shows "0 \<notin> set (encode1 c)"
proof -
  have nz: "\<And>k. k < 128 \<Longrightarrow> (of_nat (128 + k) :: byte) \<noteq> 0"
    by (rule of_nat_byte_nonzero) simp_all
  have a: "(of_nat (128 + c mod 64) :: byte) \<noteq> 0" "(of_nat (128 + c div 64 mod 64) :: byte) \<noteq> 0"
    "(of_nat (128 + c div 4096 mod 64) :: byte) \<noteq> 0"
    by (rule nz, simp)+
  consider "c < 128" | "128 \<le> c" "c < 2048" | "2048 \<le> c" "c < 65536" | "65536 \<le> c"
    by linarith
  then show ?thesis
  proof cases
    case 1
    with assms have "(of_nat c :: byte) \<noteq> 0"
      by (intro of_nat_byte_nonzero) simp_all
    with 1 show ?thesis
      unfolding encode1_def by (simp del: of_nat_add)
  next
    case 2
    then have "(of_nat (192 + c div 64) :: byte) \<noteq> 0"
      by (intro of_nat_byte_nonzero) simp_all
    with 2 a show ?thesis
      unfolding encode1_def by (simp del: of_nat_add)
  next
    case 3
    then have "(of_nat (224 + c div 4096) :: byte) \<noteq> 0"
      by (intro of_nat_byte_nonzero) simp_all
    with 3 a show ?thesis
      unfolding encode1_def encode3_def by (simp del: of_nat_add)
  next
    case 4
    with assms have "(of_nat (240 + c div 262144) :: byte) \<noteq> 0"
      by (intro of_nat_byte_nonzero) simp_all
    with 4 a show ?thesis
      unfolding encode1_def encode4_def by (simp del: of_nat_add)
  qed
qed

lemma text_ok_Cons:
  "text_ok (c # cs) \<longleftrightarrow>
     c < 1114112
     \<and> \<not> (55296 \<le> c \<and> c \<le> 56319 \<and> (case cs of [] \<Rightarrow> False | c2 # r \<Rightarrow> 56320 \<le> c2 \<and> c2 \<le> 57343))
     \<and> text_ok cs"
  by (cases cs) auto

lemma utf8_round_trip:
  "text_ok s \<Longrightarrow> utf8_decode (utf8_encode s @ bs) = map_option ((@) s) (utf8_decode bs)"
proof (induction s)
  case Nil
  show ?case by (simp add: option.map_ident option.map_id0 del: utf8_decode.simps)
next
  case (Cons c cs)
  from Cons.prems have c: "c < 1114112" and cs: "text_ok cs"
    and np: "\<not> (55296 \<le> c \<and> c \<le> 56319 \<and> (case cs of [] \<Rightarrow> False | c2 # r \<Rightarrow> 56320 \<le> c2 \<and> c2 \<le> 57343))"
    unfolding text_ok_Cons by blast+
  have e: "utf8_encode (c # cs) = encode1 c @ utf8_encode cs"
    using np by (rule utf8_encode_Cons)
  show ?case
    by (simp only: e append_assoc decode_encode1 [OF c] Cons.IH [OF cs] option.map_comp)
      (simp add: comp_def)
qed

lemma utf8_encode_nonzero:
  "text_ok s \<Longrightarrow> 0 \<notin> set s \<Longrightarrow> 0 \<notin> set (utf8_encode s)"
proof (induction s)
  case Nil
  show ?case by simp
next
  case (Cons c cs)
  from Cons.prems(1) have c1: "c < 1114112" and cs1: "text_ok cs"
    and np: "\<not> (55296 \<le> c \<and> c \<le> 56319 \<and> (case cs of [] \<Rightarrow> False | c2 # r \<Rightarrow> 56320 \<le> c2 \<and> c2 \<le> 57343))"
    unfolding text_ok_Cons by blast+
  from Cons.prems(2) have c2: "c \<noteq> 0" and cs2: "0 \<notin> set cs" by auto
  note c = c1 c2 and cs = cs1 cs2
  have e: "utf8_encode (c # cs) = encode1 c @ utf8_encode cs"
    using np by (rule utf8_encode_Cons)
  from encode1_nonzero [OF c] Cons.IH [OF cs] show ?case
    by (simp only: e set_append) simp
qed

lemma index_of_append:
  "x \<notin> set xs \<Longrightarrow> index_of x (xs @ x # ys) = Some (length xs)"
  by (induction xs) auto

lemma get_c_string_make_c_string:
  assumes "text_ok s" "0 \<notin> set s"
  shows "get_c_string (make_c_string s @ rest) = Inr (s, rest)"
proof -
  from assms have z: "0 \<notin> set (utf8_encode s)" by (rule utf8_encode_nonzero)
  have i: "index_of 0 (utf8_encode s @ 0 # rest) = Some (length (utf8_encode s))"
    using z by (rule index_of_append)
  have d: "utf8_decode (utf8_encode s) = Some s"
    using utf8_round_trip [OF assms(1), of "[]"] by simp
  show ?thesis
    by (simp add: get_c_string_def make_c_string_def i d)
qed

lemma str_digits: "c \<in> set (str n) \<Longrightarrow> digit c"
proof (induction n rule: str.induct)
  case (1 n)
  show ?case
  proof (cases "n < 10")
    case True
    with "1.prems" show ?thesis
      by (simp add: str.simps [of n] digit_def)
  next
    case False
    with "1.prems" "1.IH" show ?thesis
      by (auto simp: str.simps [of n] digit_def)
  qed
qed

lemma str_nonempty: "str n \<noteq> []"
  by (simp add: str.simps [of n])

lemma text_ok_small: "\<forall>c\<in>set s. c < 55296 \<Longrightarrow> text_ok s"
  by (induction s rule: text_ok.induct) auto

lemma text_ok_str: "text_ok (str n)"
  by (rule text_ok_small) (auto dest: str_digits simp: digit_def)

lemma str_no_zero: "0 \<notin> set (str n)"
  by (auto dest: str_digits simp: digit_def)

lemma re_match_array_str: "re_match Valid_array_name (str n)"
proof -
  have t: "takeWhile digit (str n) = str n" and d: "dropWhile digit (str n) = []"
    by (auto intro: str_digits)
  show ?thesis
    by (simp only: re_match.simps t d at_end_def) (simp add: str_nonempty)
qed

lemma re_match_object_digits: "\<forall>c\<in>set s. digit c \<Longrightarrow> re_match Valid_object_name s"
proof -
  assume "\<forall>c\<in>set s. digit c"
  then have d: "dropWhile (\<lambda>c. c \<noteq> 10) s = []"
    by (auto simp: digit_def)
  show ?thesis
    by (simp only: re_match.simps d at_end_def) simp
qed

lemma re_match_str: "re_match p (str n)"
proof (cases p)
  case Valid_object_name
  have "re_match Valid_object_name (str n)"
    by (rule re_match_object_digits) (blast intro: str_digits)
  with Valid_object_name show ?thesis by (simp only:)
next
  case Valid_array_name
  with re_match_array_str [of n] show ?thesis by (simp only:)
qed

lemma distinct_str: "distinct (map str [i..<j])"
  by (simp add: distinct_map inj_on_def str_inject)

lemma get_array_loop_zip:
  assumes "i \<le> length l"
  shows "get_array_loop (zip (map str [0..<length l]) l) (take i l) i = l"
  using assms
proof (induction "length l - i" arbitrary: i)
  case 0
  then have i: "i = length l" by simp
  have "str (length l) \<notin> set (map str [0..<length l])"
    by (auto dest: str_inject)
  then have n: "map_of (zip (map str [0..<length l]) l) (str (length l)) = None"
    by (simp add: map_of_zip_is_None)
  show ?case
    unfolding i by (subst get_array_loop.simps) (simp add: n)
next
  case (Suc k)
  then have i: "i < length l" by simp
  have "map_of (zip (map str [0..<length l]) l) (map str [0..<length l] ! i) = Some (l ! i)"
    using i by (intro map_of_zip_nth) (simp_all add: distinct_str)
  with i have m: "map_of (zip (map str [0..<length l]) l) (str i) = Some (l ! i)"
    by simp
  from i have t: "take i l @ [l ! i] = take (i + 1) l"
    by (simp add: take_Suc_conv_app_nth)
  from Suc.hyps(2) i have "k = length l - (i + 1)" by simp
  from Suc.hyps(1) [OF this] i
  have "get_array_loop (zip (map str [0..<length l]) l) (take (i + 1) l) (i + 1) = l"
    by simp
  then show ?case
    by (simp add: get_array_loop.simps [of _ _ i] m t del: take_Suc)
qed

lemma get_array_loop_zip0:
  "get_array_loop (zip (map str [0..<length l]) l) [] 0 = l"
  using get_array_loop_zip [of 0 l] by simp

section \<open>The round trip\<close>

text \<open>
  The dictionaries for which the round trip is proved. A key is text without a zero code
  point that \<open>_valid_object_name\<close> matches (no newline but a last one); a text value has
  no zero code point; the keys of a dictionary are distinct; an integer is in the range
  of \<open>struct.pack("<i", ...)\<close>.
\<close>

definition key_ok :: "unicode \<Rightarrow> bool" where
  "key_ok k = (text_ok k \<and> 0 \<notin> set k \<and> re_match Valid_object_name k)"

fun encodable :: "value \<Rightarrow> bool" where
  "encodable (Float x) = True"
| "encodable (Unicode s) = (text_ok s \<and> 0 \<notin> set s)"
| "encodable (Dict d) =
     (distinct (map fst d) \<and> (\<forall>kv\<in>set d. key_ok (fst kv) \<and> encodable (snd kv)))"
| "encodable (List l) = (\<forall>v\<in>set l. encodable v)"
| "encodable (Bool b) = True"
| "encodable (Integer i) = (- 2147483648 \<le> i \<and> i < 2147483648)"
| "encodable (Str s) = False"
| "encodable NoneVal = False"

text \<open>The number of bytes of the encoding: of a payload, and of a document.\<close>

definition elements_size :: "(unicode \<times> nat) list \<Rightarrow> nat" where
  "elements_size kns = sum_list (map (\<lambda>kn. 2 + length (utf8_encode (fst kn)) + snd kn) kns)"

fun payload_size :: "value \<Rightarrow> nat" where
  "payload_size (Float x) = 8"
| "payload_size (Unicode s) = 5 + length (utf8_encode s)"
| "payload_size (Dict d) = 5 + elements_size (map (\<lambda>kv. (fst kv, payload_size (snd kv))) d)"
| "payload_size (List l) = 5 + elements_size (zip (map str [0..<length l]) (map payload_size l))"
| "payload_size (Bool b) = 1"
| "payload_size (Integer i) = 4"
| "payload_size (Str s) = 0"
| "payload_size NoneVal = 0"

text \<open>The dictionary built from a sequence: whatever the slots, the same items.\<close>

lemma set_dict_of_zip: "set (dict_of_zip slot ks vs) = set (zip ks vs)"
  by (simp add: dict_of_zip_def)

lemma distinct_dict_of_zip:
  assumes "distinct ks"
  shows "distinct (map fst (dict_of_zip slot ks vs))"
proof -
  from assms have "distinct (map fst (zip ks vs))"
    by (simp add: map_fst_zip_take)
  then show ?thesis
    by (simp add: dict_of_zip_def distinct_map)
qed

lemma map_of_dict_of_zip:
  assumes "distinct ks"
  shows "map_of (dict_of_zip slot ks vs) = map_of (zip ks vs)"
proof -
  from assms have "distinct (map fst (zip ks vs))"
    by (simp add: map_fst_zip_take)
  with distinct_dict_of_zip [OF assms, of slot vs] show ?thesis
    by (simp only: map_of_inject_set set_dict_of_zip)
qed

lemma get_array_loop_cong:
  "map_of d = map_of d' \<Longrightarrow> get_array_loop d result i = get_array_loop d' result i"
proof (induction d result i rule: get_array_loop.induct)
  case (1 dict result i)
  show ?case
  proof (cases "map_of dict (str i)")
    case None
    with "1.prems" show ?thesis
      by (simp add: get_array_loop.simps [of dict result i] get_array_loop.simps [of d' result i])
  next
    case (Some v)
    with "1.prems" "1.IH" [OF Some "1.prems"] show ?thesis
      by (simp add: get_array_loop.simps [of dict result i] get_array_loop.simps [of d' result i])
  qed
qed

lemma get_array_loop_dict_of_zip:
  "get_array_loop (dict_of_zip slot (map str [0..<length l]) l) [] 0 = l"
proof -
  have "map_of (dict_of_zip slot (map str [0..<length l]) l) = map_of (zip (map str [0..<length l]) l)"
    by (rule map_of_dict_of_zip) (rule distinct_str)
  then have "get_array_loop (dict_of_zip slot (map str [0..<length l]) l) [] 0
      = get_array_loop (zip (map str [0..<length l]) l) [] 0"
    by (rule get_array_loop_cong)
  then show ?thesis
    by (simp only: get_array_loop_zip0)
qed

lemma payload_size_List:
  "payload_size (List l) = payload_size (Dict (dict_of_zip slot (map str [0..<length l]) l))"
proof -
  have "map (\<lambda>kv. (fst kv, payload_size (snd kv))) (zip (map str [0..<length l]) l)
      = zip (map str [0..<length l]) (map payload_size l)"
    by (simp add: zip_map2 case_prod_beta)
  then have "payload_size (List l) = payload_size (Dict (zip (map str [0..<length l]) l))"
    by simp
  also have "\<dots> = payload_size (Dict (dict_of_zip slot (map str [0..<length l]) l))"
    by (simp add: elements_size_def dict_of_zip_def sum_list_sort_key comp_def)
  finally show ?thesis .
qed

lemma key_ok_str: "key_ok (str n)"
  by (simp only: key_ok_def text_ok_str str_no_zero re_match_str not_False_eq_True simp_thms)

lemma encodable_List:
  assumes "encodable (List l)"
  shows "encodable (Dict (dict_of_zip slot (map str [0..<length l]) l))"
proof -
  have d: "distinct (map fst (dict_of_zip slot (map str [0..<length l]) l))"
    by (rule distinct_dict_of_zip) (rule distinct_str)
  have "key_ok (fst kv) \<and> encodable (snd kv)"
    if "kv \<in> set (dict_of_zip slot (map str [0..<length l]) l)" for kv
  proof -
    obtain k v where kv: "kv = (k, v)" by (cases kv)
    from that have "kv \<in> set (zip (map str [0..<length l]) l)"
      by (simp only: set_dict_of_zip)
    then have "fst kv \<in> set (map str [0..<length l])" and v: "snd kv \<in> set l"
      unfolding kv fst_conv snd_conv by (rule set_zip_leftD, rule set_zip_rightD)
    then obtain i where "fst kv = str i" by auto
    with v assms show ?thesis by (simp add: key_ok_str)
  qed
  with d show ?thesis by (simp only: encodable.simps) blast
qed

subsection \<open>Slices of an encoding\<close>

lemma slice_body:
  "length pre = 4 \<Longrightarrow> slice (pre @ body @ rest) 4 (int (4 + length body)) = body"
  by (simp add: slice_def clamp_index_def Let_def)

lemma slice_from_append: "slice_from (xs @ rest) (int (length xs)) = rest"
  by (simp add: slice_from_def clamp_index_def)

lemma slice_to_last: "slice_to (xs @ [x]) (- 1) = xs"
  by (simp add: slice_to_def clamp_index_def)

lemma item_last: "item (xs @ [x]) (- 1) = Inr x"
  by (simp add: item_def Let_def nth_append)

lemma item_append_length: "item (xs @ x # ys) (int (length xs)) = Inr x"
  by (simp add: item_def Let_def)

subsection \<open>One element\<close>

text \<open>\<open>_element_getter[element_type](data)\<close>, the dispatch inside \<open>_element_to_dict\<close>.\<close>

definition getter :: "byte \<Rightarrow> bytes \<Rightarrow> error + value \<times> bytes" where
  "getter element_type data =
     (if element_type = 0x01 then as_value Float (get_number data)
      else if element_type = 0x02 then as_value Unicode (get_string data)
      else if element_type = 0x03 then as_value Dict (get_object data)
      else if element_type = 0x04 then as_value List (get_array data)
      else if element_type = 0x08 then as_value Bool (get_boolean data)
      else if element_type = 0x10 then as_value Integer (get_int data)
      else Inl KeyError)"

lemma element_to_dict_getter:
  assumes "text_ok key" "0 \<notin> set key"
  shows "element_to_dict (t # make_c_string key @ data) =
     (case getter t data of Inl e \<Rightarrow> Inl e | Inr (v, data') \<Rightarrow> Inr (key, v, data'))"
proof -
  have i: "item (t # make_c_string key @ data) 0 = Inr t"
    by (simp add: item_def)
  have g: "get_c_string (drop 1 (t # make_c_string key @ data)) = Inr (key, data)"
    using assms by (simp add: get_c_string_make_c_string)
  show ?thesis
    unfolding element_to_dict.simps [of "t # make_c_string key @ data"] i g getter_def
    by simp
qed

lemma validate_element_cons:
  assumes "text_ok key" "0 \<notin> set key" "re_match p key"
  shows "validate_element (t # make_c_string key @ data) p = validate_element_data t data"
proof -
  have i: "item (t # make_c_string key @ data) 0 = Inr t"
    by (simp add: item_def)
  have g: "get_c_string (drop 1 (t # make_c_string key @ data)) = Inr (key, data)"
    using assms by (simp add: get_c_string_make_c_string)
  show ?thesis
    unfolding validate_element.simps [of "t # make_c_string key @ data"] i g
    using assms(3) by simp
qed

text \<open>
  \<open>payload_ok t v payload\<close>: whatever follows, the validator of the tag \<open>t\<close> steps over
  \<open>payload\<close> exactly, and its getter returns \<open>v\<close> and what follows.
\<close>

definition payload_ok :: "byte \<Rightarrow> value \<Rightarrow> bytes \<Rightarrow> bool" where
  "payload_ok t v payload =
     (\<forall>rest. validate_element_data t (payload @ rest) = Inr rest
             \<and> getter t (payload @ rest) = Inr (v, rest))"

lemma payload_ok_Float: "payload_ok 0x01 (Float x) (pack_double x)"
  by (simp add: payload_ok_def validate_element_data.simps validate_number_def getter_def
      get_number_def as_value_def unpack_pack_double)

lemma payload_ok_Bool: "payload_ok 0x08 (Bool b) (if b then [0x01] else [0x00])"
  by (simp add: payload_ok_def validate_element_data.simps validate_boolean_def getter_def
      get_boolean_def as_value_def item_def)

lemma payload_ok_Integer:
  assumes "pack_int i = Inr bs"
  shows "payload_ok 0x10 (Integer i) bs"
proof -
  from assms have l: "length bs = 4" by (rule pack_int_length)
  from assms have u: "unpack_int bs = Inr i" by (rule unpack_pack_int)
  show ?thesis
    by (simp add: payload_ok_def validate_element_data.simps validate_number_int_def getter_def
        get_int_def as_value_def l u)
qed

lemma payload_ok_Unicode:
  assumes "text_ok s" "0 \<notin> set s" "length (make_c_string s) < 2147483648"
  shows "payload_ok 0x02 (Unicode s)
           (le_bytes 4 (length (make_c_string s)) @ make_c_string s)"
proof -
  let ?n = "length (make_c_string s)"
  have p: "pack_int (int ?n) = Inr (le_bytes 4 ?n)"
    using assms(3) by (rule pack_int_nat)
  then have u: "unpack_int (le_bytes 4 ?n) = Inr (int ?n)" by (rule unpack_pack_int)
  have gi: "get_int ((le_bytes 4 ?n @ make_c_string s) @ rest) = Inr (int ?n, make_c_string s @ rest)"
    for rest
    by (simp add: get_int_def u)
  have it: "item (make_c_string s @ rest) (int ?n - 1) = Inr 0" for rest
    using item_append_length [of "utf8_encode s" 0 rest]
    by (simp add: make_c_string_def)
  have sf: "slice_from (make_c_string s @ rest) (int ?n) = rest" for rest
    by (rule slice_from_append)
  have v: "validate_string ((le_bytes 4 ?n @ make_c_string s) @ rest) = Inr rest" for rest
    unfolding validate_string_def gi by (simp add: it sf)
  have g: "get_string ((le_bytes 4 ?n @ make_c_string s) @ rest) = Inr (s, rest)" for rest
    using assms(1,2) by (simp add: get_string_def get_c_string_make_c_string)
  show ?thesis
    unfolding payload_ok_def
    by (simp add: validate_element_data.simps getter_def as_value_def v g del: append_assoc)
qed

subsection \<open>Elements and documents\<close>

definition element_ok :: "unicode \<Rightarrow> value \<Rightarrow> bytes \<Rightarrow> bool" where
  "element_ok key v e =
     (\<forall>rest. (\<forall>p. re_match p key \<longrightarrow> validate_element (e @ rest) p = Inr rest)
             \<and> element_to_dict (e @ rest) = Inr (key, v, rest))"

definition elements_ok :: "dict \<Rightarrow> bytes \<Rightarrow> bool" where
  "elements_ok d els =
     ((\<forall>p. (\<forall>kv\<in>set d. re_match p (fst kv)) \<longrightarrow> validate_elements els p = Inr ())
      \<and> (\<forall>result. elements_to_dict_loop els result = Inr (foldl assign result d)))"

definition document_ok :: "dict \<Rightarrow> bytes \<Rightarrow> bool" where
  "document_ok d b =
     (\<forall>rest. (\<forall>p. (\<forall>kv\<in>set d. re_match p (fst kv)) \<longrightarrow> validate_document (b @ rest) p = Inr rest)
             \<and> document_to_dict (b @ rest) = Inr (d, rest))"

lemma element_ok_payload:
  assumes "payload_ok t v payload" "text_ok key" "0 \<notin> set key"
  shows "element_ok key v (t # make_c_string key @ payload)"
proof -
  have "validate_element ((t # make_c_string key @ payload) @ rest) p = Inr rest"
    if "re_match p key" for p rest
    using validate_element_cons [OF assms(2,3) that, of t "payload @ rest"] assms(1)
    by (simp add: payload_ok_def)
  moreover have "element_to_dict ((t # make_c_string key @ payload) @ rest) = Inr (key, v, rest)"
    for rest
    using element_to_dict_getter [OF assms(2,3), of t "payload @ rest"] assms(1)
    by (simp add: payload_ok_def)
  ultimately show ?thesis
    unfolding element_ok_def by blast
qed

lemma elements_ok_Nil: "elements_ok [] []"
  by (simp add: elements_ok_def validate_elements.simps [of "[]"]
      elements_to_dict_loop.simps [of "[]"])

lemma elements_ok_Cons:
  assumes e: "element_ok key v e" and els: "elements_ok items els" and ne: "e \<noteq> []"
  shows "elements_ok ((key, v) # items) (e @ els)"
proof -
  have "validate_elements (e @ els) p = Inr ()"
    if "\<forall>kv\<in>set ((key, v) # items). re_match p (fst kv)" for p
  proof -
    from that have k: "re_match p key" and r: "\<forall>kv\<in>set items. re_match p (fst kv)"
      by simp_all
    from e k have "validate_element (e @ els) p = Inr els"
      by (simp add: element_ok_def)
    moreover from els r have "validate_elements els p = Inr ()"
      by (simp add: elements_ok_def)
    ultimately show ?thesis
      using ne by (simp add: validate_elements.simps [of "e @ els"])
  qed
  moreover have "elements_to_dict_loop (e @ els) result
      = Inr (foldl assign result ((key, v) # items))" for result
  proof -
    from e have "element_to_dict (e @ els) = Inr (key, v, els)"
      by (simp add: element_ok_def)
    moreover from els
    have "elements_to_dict_loop els (AList.update key v result)
        = Inr (foldl assign (AList.update key v result) items)"
      by (simp add: elements_ok_def)
    ultimately show ?thesis
      using ne by (simp add: elements_to_dict_loop.simps [of "e @ els"] assign_def)
  qed
  ultimately show ?thesis
    unfolding elements_ok_def by blast
qed

lemma update_fresh: "k \<notin> fst ` set r \<Longrightarrow> AList.update k v r = r @ [(k, v)]"
  by (induction r) auto

lemma foldl_assign_distinct:
  "distinct (map fst (r @ d)) \<Longrightarrow> foldl assign r d = r @ d"
proof (induction d arbitrary: r)
  case Nil
  show ?case by simp
next
  case (Cons kv d)
  from Cons.prems have f: "fst kv \<notin> fst ` set r" by auto
  from Cons.prems have "distinct (map fst ((r @ [kv]) @ d))" by simp
  then have "foldl assign (r @ [kv]) d = (r @ [kv]) @ d" by (rule Cons.IH)
  moreover have "assign r kv = r @ [kv]"
    using f by (simp add: assign_def update_fresh)
  ultimately show ?case by simp
qed

lemma document_ok_elements:
  assumes els: "elements_ok d els" and dist: "distinct (map fst d)"
    and size: "length els + 5 < 2147483648"
  shows "document_ok d (le_bytes 4 (length els + 5) @ els @ [0])"
proof -
  let ?n = "length els + 5"
  let ?b = "le_bytes 4 ?n @ els @ [0]"
  define N where "N = int ?n"
  have p: "pack_int (int ?n) = Inr (le_bytes 4 ?n)"
    using size by (rule pack_int_nat)
  then have "unpack_int (le_bytes 4 ?n) = Inr (int ?n)" by (rule unpack_pack_int)
  then have u: "unpack_int (take 4 (?b @ rest)) = Inr N" for rest
    by (simp add: N_def)
  have le: "N \<le> int (length (?b @ rest))" for rest
    by (simp add: N_def)
  have s1: "slice (?b @ rest) 4 N = els @ [0]" for rest
    using slice_body [of "le_bytes 4 ?n" "els @ [0]" rest] by (simp add: N_def add.commute)
  have s2: "slice (?b @ rest) 4 (N - 1) = els" for rest
    using slice_body [of "le_bytes 4 ?n" els "[0] @ rest"] by (simp add: N_def add.commute)
  have sf: "slice_from (?b @ rest) N = rest" for rest
    using slice_from_append [of ?b rest] by (simp add: N_def add.commute)
  have "validate_document (?b @ rest) p = Inr rest"
    if "\<forall>kv\<in>set d. re_match p (fst kv)" for p rest
  proof -
    from els that have v: "validate_elements els p = Inr ()"
      by (simp add: elements_ok_def)
    show ?thesis
      unfolding validate_document.simps [of "?b @ rest"] u
      by (simp only: sum.case le not_not if_False if_True Let_def s1 sf item_last slice_to_last v)
        simp
  qed
  moreover have "document_to_dict (?b @ rest) = Inr (d, rest)" for rest
  proof -
    from els have "elements_to_dict_loop els [] = Inr (foldl assign [] d)"
      by (simp add: elements_ok_def)
    also have "foldl assign [] d = d"
      using dist foldl_assign_distinct [of "[]" d] by simp
    finally have e: "elements_to_dict els = Inr d" by simp
    show ?thesis
      unfolding document_to_dict.simps [of "?b @ rest"] u
      by (simp only: sum.case s2 sf e)
  qed
  ultimately show ?thesis
    unfolding document_ok_def by blast
qed

lemma payload_ok_Dict:
  assumes "document_ok d b" "\<forall>kv\<in>set d. re_match Valid_object_name (fst kv)"
  shows "payload_ok 0x03 (Dict d) b"
  using assms
  by (simp add: payload_ok_def document_ok_def validate_element_data.simps getter_def
      as_value_def)

lemma payload_ok_List:
  assumes "document_ok (dict_of_zip slot (map str [0..<length l]) l) b"
  shows "payload_ok 0x04 (List l) b"
proof -
  let ?d = "dict_of_zip slot (map str [0..<length l]) l"
  have m: "\<forall>kv\<in>set ?d. re_match Valid_array_name (fst kv)"
  proof
    fix kv assume "kv \<in> set ?d"
    then have kv: "kv \<in> set (zip (map str [0..<length l]) l)"
      by (simp only: set_dict_of_zip)
    obtain k v where "kv = (k, v)" by (cases kv)
    with kv have "k \<in> set (map str [0..<length l])" by (auto dest: set_zip_leftD)
    then obtain i where "k = str i" by auto
    with \<open>kv = (k, v)\<close> show "re_match Valid_array_name (fst kv)"
      by (simp only: fst_conv re_match_str)
  qed
  from assms m have v: "validate_document (b @ rest) Valid_array_name = Inr rest" for rest
    unfolding document_ok_def by blast
  from assms have g: "document_to_dict (b @ rest) = Inr (?d, rest)" for rest
    unfolding document_ok_def by blast
  show ?thesis
    unfolding payload_ok_def
    by (simp add: validate_element_data.simps getter_def as_value_def v g
        get_array.simps get_array_loop_dict_of_zip)
qed

lemma BSON_document_ok:
  assumes "document_ok d b" "\<forall>kv\<in>set d. re_match Valid_object_name (fst kv)"
  shows "BSON b = Inr b"
proof -
  from assms have "validate_document (b @ []) Valid_object_name = Inr []"
    unfolding document_ok_def by blast
  then show ?thesis
    by (simp add: BSON_def is_valid_def)
qed

subsection \<open>The encoder, by induction along its calls\<close>

definition dict_size :: "dict \<Rightarrow> nat" where
  "dict_size d = elements_size (map (\<lambda>kv. (fst kv, payload_size (snd kv))) d)"

definition value_good :: "slots \<Rightarrow> value \<Rightarrow> bool" where
  "value_good slot v =
     (encodable v \<longrightarrow> payload_size v < 2147483648 \<longrightarrow>
      (\<exists>t payload. value_to_bson slot v = Inr (t, payload) \<and> length payload = payload_size v
         \<and> payload_ok t v payload))"

definition element_good :: "slots \<Rightarrow> unicode \<Rightarrow> value \<Rightarrow> bool" where
  "element_good slot key v =
     (text_ok key \<longrightarrow> 0 \<notin> set key \<longrightarrow> encodable v \<longrightarrow> payload_size v < 2147483648 \<longrightarrow>
      (\<exists>e. element_to_bson slot key v = Inr e
         \<and> length e = 2 + length (utf8_encode key) + payload_size v
         \<and> e \<noteq> [] \<and> element_ok key v e))"

definition document_good :: "slots \<Rightarrow> value \<Rightarrow> bool" where
  "document_good slot v =
     (\<forall>d. v = Dict d \<longrightarrow> encodable v \<longrightarrow> payload_size v < 2147483648 \<longrightarrow>
      (\<exists>b. from_dict slot v = Inr b \<and> length b = payload_size v \<and> document_ok d b))"

definition elements_good :: "slots \<Rightarrow> dict \<Rightarrow> bool" where
  "elements_good slot d =
     ((\<forall>kv\<in>set d. key_ok (fst kv) \<and> encodable (snd kv)) \<longrightarrow> dict_size d < 2147483648 \<longrightarrow>
      (\<exists>els. join_elements slot d = Inr els \<and> length els = dict_size d \<and> elements_ok d els))"

lemma length_make_c_string: "length (make_c_string s) = length (utf8_encode s) + 1"
  by (simp add: make_c_string_def)

lemma value_good_Float: "value_good slot (Float x)"
  by (simp add: value_good_def payload_ok_Float)

lemma value_good_Bool: "value_good slot (Bool b)"
  using payload_ok_Bool [of b] by (cases b) (simp_all add: value_good_def)

lemma value_good_Integer: "value_good slot (Integer i)"
proof -
  have "\<exists>t payload. value_to_bson slot (Integer i) = Inr (t, payload)
      \<and> length payload = payload_size (Integer i) \<and> payload_ok t (Integer i) payload"
    if "encodable (Integer i)"
  proof -
    from that obtain bs where p: "pack_int i = Inr bs"
      by (auto simp: pack_int_def)
    then have "payload_ok 0x10 (Integer i) bs" by (rule payload_ok_Integer)
    moreover from p have "length bs = 4" by (rule pack_int_length)
    ultimately show ?thesis
      using p by (simp add: int_to_bson_def)
  qed
  then show ?thesis
    unfolding value_good_def by blast
qed

lemma value_good_Unicode: "value_good slot (Unicode s)"
proof -
  have "\<exists>t payload. value_to_bson slot (Unicode s) = Inr (t, payload)
      \<and> length payload = payload_size (Unicode s) \<and> payload_ok t (Unicode s) payload"
    if e: "encodable (Unicode s)" and z: "payload_size (Unicode s) < 2147483648"
  proof -
    from z have n: "length (make_c_string s) < 2147483648"
      by (simp add: length_make_c_string)
    then have p: "pack_int (int (length (make_c_string s))) = Inr (le_bytes 4 (length (make_c_string s)))"
      by (rule pack_int_nat)
    from e n have "payload_ok 0x02 (Unicode s)
        (le_bytes 4 (length (make_c_string s)) @ make_c_string s)"
      by (simp add: payload_ok_Unicode)
    moreover have "value_to_bson slot (Unicode s)
        = Inr (0x02, le_bytes 4 (length (make_c_string s)) @ make_c_string s)"
      by (simp add: int_to_bson_def p Let_def)
    ultimately show ?thesis
      by (simp add: length_make_c_string)
  qed
  then show ?thesis
    unfolding value_good_def by blast
qed

lemma value_good_unsupported: "value_good slot (Str s)" "value_good slot NoneVal"
  by (simp_all add: value_good_def)

lemma value_good_Dict:
  assumes "document_good slot (Dict d)"
  shows "value_good slot (Dict d)"
proof -
  have "\<exists>t payload. value_to_bson slot (Dict d) = Inr (t, payload)
      \<and> length payload = payload_size (Dict d) \<and> payload_ok t (Dict d) payload"
    if e: "encodable (Dict d)" and z: "payload_size (Dict d) < 2147483648"
  proof -
    from assms e z obtain b where b: "from_dict slot (Dict d) = Inr b"
      and l: "length b = payload_size (Dict d)" and ok: "document_ok d b"
      unfolding document_good_def by blast
    from e have "\<forall>kv\<in>set d. re_match Valid_object_name (fst kv)"
      by (simp add: key_ok_def)
    with ok have "payload_ok 0x03 (Dict d) b" by (rule payload_ok_Dict)
    with b l show ?thesis by simp
  qed
  then show ?thesis
    unfolding value_good_def by blast
qed

lemma value_good_List:
  assumes "document_good slot (Dict (dict_of_zip slot (map str [0..<length l]) l))"
  shows "value_good slot (List l)"
proof -
  let ?d = "dict_of_zip slot (map str [0..<length l]) l"
  have "\<exists>t payload. value_to_bson slot (List l) = Inr (t, payload)
      \<and> length payload = payload_size (List l) \<and> payload_ok t (List l) payload"
    if e: "encodable (List l)" and z: "payload_size (List l) < 2147483648"
  proof -
    from e have e': "encodable (Dict ?d)" by (rule encodable_List)
    from z have z': "payload_size (Dict ?d) < 2147483648"
      by (simp only: payload_size_List [of l slot])
    from assms e' z' obtain b where b: "from_dict slot (Dict ?d) = Inr b"
      and l: "length b = payload_size (Dict ?d)" and ok: "document_ok ?d b"
      unfolding document_good_def by blast
    from ok have "payload_ok 0x04 (List l) b" by (rule payload_ok_List)
    moreover from b have "value_to_bson slot (List l) = Inr (0x04, b)"
      by (simp add: Let_def)
    ultimately show ?thesis
      using l by (simp only: payload_size_List [of l slot]) blast
  qed
  then show ?thesis
    unfolding value_good_def by blast
qed

lemma element_good_value:
  assumes "value_good slot v"
  shows "element_good slot key v"
proof -
  have "\<exists>e. element_to_bson slot key v = Inr e
         \<and> length e = 2 + length (utf8_encode key) + payload_size v
         \<and> e \<noteq> [] \<and> element_ok key v e"
    if k: "text_ok key" "0 \<notin> set key" and e: "encodable v" and z: "payload_size v < 2147483648"
  proof -
    from assms e z obtain t payload where v: "value_to_bson slot v = Inr (t, payload)"
      and l: "length payload = payload_size v" and ok: "payload_ok t v payload"
      unfolding value_good_def by blast
    from ok k have "element_ok key v (t # make_c_string key @ payload)"
      by (rule element_ok_payload)
    moreover from v have "element_to_bson slot key v = Inr (t # make_c_string key @ payload)"
      by (simp add: Let_def)
    ultimately show ?thesis
      using l by (simp add: length_make_c_string)
  qed
  then show ?thesis
    unfolding element_good_def by blast
qed

lemma document_good_other:
  "document_good slot (Float x)" "document_good slot (Unicode s)" "document_good slot (List l)"
  "document_good slot (Bool b)" "document_good slot (Integer i)" "document_good slot (Str bs)"
  "document_good slot NoneVal"
  by (simp_all add: document_good_def)

lemma elements_good_Nil: "elements_good slot []"
  by (simp add: elements_good_def dict_size_def elements_size_def elements_ok_Nil)

lemma dict_size_Cons:
  "dict_size ((key, v) # items) = 2 + length (utf8_encode key) + payload_size v + dict_size items"
  by (simp add: dict_size_def elements_size_def)

lemma elements_good_Cons:
  assumes "element_good slot key v" and "\<And>b. element_to_bson slot key v = Inr b \<Longrightarrow> elements_good slot items"
  shows "elements_good slot ((key, v) # items)"
proof -
  have "\<exists>els. join_elements slot ((key, v) # items) = Inr els
      \<and> length els = dict_size ((key, v) # items) \<and> elements_ok ((key, v) # items) els"
    if a: "\<forall>kv\<in>set ((key, v) # items). key_ok (fst kv) \<and> encodable (snd kv)"
      and z: "dict_size ((key, v) # items) < 2147483648"
  proof -
    from a have k: "text_ok key" "0 \<notin> set key" and ev: "encodable v"
      and ai: "\<forall>kv\<in>set items. key_ok (fst kv) \<and> encodable (snd kv)"
      by (simp_all add: key_ok_def)
    from z have zv: "payload_size v < 2147483648" and zi: "dict_size items < 2147483648"
      by (simp_all add: dict_size_Cons)
    from assms(1) k ev zv obtain e where e: "element_to_bson slot key v = Inr e"
      and le: "length e = 2 + length (utf8_encode key) + payload_size v"
      and ne: "e \<noteq> []" and ok: "element_ok key v e"
      unfolding element_good_def by blast
    from assms(2) [OF e] ai zi obtain els where j: "join_elements slot items = Inr els"
      and ls: "length els = dict_size items" and oks: "elements_ok items els"
      unfolding elements_good_def by blast
    from ok oks ne have "elements_ok ((key, v) # items) (e @ els)"
      by (rule elements_ok_Cons)
    moreover from e j have "join_elements slot ((key, v) # items) = Inr (e @ els)"
      by simp
    ultimately show ?thesis
      using le ls by (simp add: dict_size_Cons)
  qed
  then show ?thesis
    unfolding elements_good_def by blast
qed

lemma document_good_Dict:
  assumes "elements_good slot d"
  shows "document_good slot (Dict d)"
proof -
  have "\<exists>b. from_dict slot (Dict d) = Inr b \<and> length b = payload_size (Dict d) \<and> document_ok d b"
    if e: "encodable (Dict d)" and z: "payload_size (Dict d) < 2147483648"
  proof -
    from e have dist: "distinct (map fst d)"
      and a: "\<forall>kv\<in>set d. key_ok (fst kv) \<and> encodable (snd kv)"
      by simp_all
    from z have zs: "dict_size d + 5 < 2147483648"
      by (simp add: dict_size_def)
    with assms a obtain els where j: "join_elements slot d = Inr els"
      and ls: "length els = dict_size d" and oks: "elements_ok d els"
      unfolding elements_good_def by auto
    let ?b = "le_bytes 4 (length els + 5) @ els @ [0]"
    from zs ls have n: "length els + 5 < 2147483648" by simp
    with oks dist have ok: "document_ok d ?b"
      by (intro document_ok_elements)
    from a have "\<forall>kv\<in>set d. re_match Valid_object_name (fst kv)"
      by (simp add: key_ok_def)
    with ok have bs: "BSON ?b = Inr ?b" by (rule BSON_document_ok)
    have "int (length els) + 5 = int (length els + 5)" by simp
    then have p: "int_to_bson (int (length els) + 5) = Inr (le_bytes 4 (length els + 5))"
      using pack_int_nat [OF n] by (simp only: int_to_bson_def)
    from j p bs have "from_dict slot (Dict d) = Inr ?b"
      by (simp only: from_dict.simps sum.case)
    moreover have "length ?b = payload_size (Dict d)"
      using ls by (simp add: dict_size_def)
    ultimately show ?thesis
      using ok by blast
  qed
  then show ?thesis
    unfolding document_good_def by blast
qed

lemma encoder_good:
  "value_good slot v" "element_good slot2 key v2" "document_good slot3 v3"
  "elements_good slot4 d"
proof (induction slot v and slot2 key v2 and slot3 v3 and slot4 d
    rule: value_to_bson_element_to_bson_from_dict_join_elements.induct)
  case (3 slot d)
  then show ?case by (rule value_good_Dict)
next
  case (4 slot l)
  then show ?case by (intro value_good_List) simp
next
  case (8 slot key v)
  then show ?case by (intro element_good_value) simp
next
  case (9 slot d)
  then show ?case by (rule document_good_Dict)
next
  case (12 slot key v items)
  then show ?case by (rule elements_good_Cons)
qed (simp_all only: value_good_Float value_good_Unicode value_good_Bool value_good_Integer
    value_good_unsupported document_good_other elements_good_Nil)

subsection \<open>Where the round trip fails\<close>

lemma length_utf8_encode_replicate: "length (utf8_encode (replicate n 0x61)) = n"
  by (induction n) simp_all

lemma from_dict_too_long:
  assumes "length (utf8_encode s) = 2147483647"
  shows "from_dict slot (Dict [(key, Unicode s)]) = Inl StructError"
proof -
  have "int_to_bson (int (length (make_c_string s))) = Inl StructError"
    by (simp add: int_to_bson_def pack_int_def length_make_c_string assms)
  then have "value_to_bson slot (Unicode s) = Inl StructError"
    by (simp add: Let_def)
  then show ?thesis
    by (simp add: Let_def)
qed

lemma utf8_encode_surrogate_pair: "utf8_encode [0xD800, 0xDC00] = [0xF0, 0x90, 0x80, 0x80]"
  by (simp add: encode4_def)

lemma le_bytes_4:
  "le_bytes 4 n = [of_nat (n mod 256), of_nat (n div 256 mod 256),
     of_nat (n div 256 div 256 mod 256), of_nat (n div 256 div 256 div 256 mod 256)]"
proof -
  have "(4::nat) = Suc (Suc (Suc (Suc 0)))" by simp
  then show ?thesis by (simp only: le_bytes.simps)
qed

lemma surrogate_pair_valid:
  "validate_document [0x0F, 0, 0, 0, 0x10, 0xF0, 0x90, 0x80, 0x80, 0, 1, 0, 0, 0, 0]
     Valid_object_name = Inr []"
  by (simp add: validate_document.simps validate_elements.simps validate_element.simps
      validate_element_data.simps validate_number_int_def unpack_int_def slice_def slice_from_def
      slice_to_def clamp_index_def item_def get_c_string_def cont_def at_end_def Let_def)

lemma surrogate_pair_encoded:
  "from_dict slot (Dict [([0xD800, 0xDC00], Integer 1)])
     = Inr [0x0F, 0, 0, 0, 0x10, 0xF0, 0x90, 0x80, 0x80, 0, 1, 0, 0, 0, 0]"
  by (simp add: make_c_string_def encode4_def int_to_bson_def pack_int_def le_bytes_4 BSON_def
      is_valid_def surrogate_pair_valid)

lemma surrogate_pair_decoded:
  "to_dict [0x0F, 0, 0, 0, 0x10, 0xF0, 0x90, 0x80, 0x80, 0, 1, 0, 0, 0, 0]
     = Inr [([0x10000], Integer 1)]"
  by (simp add: to_dict_def document_to_dict.simps elements_to_dict_loop.simps
      element_to_dict.simps unpack_int_def slice_def slice_from_def
      clamp_index_def item_def get_c_string_def cont_def get_int_def as_value_def Let_def)




end
